theory Spec2Isabelle
  imports Main "HOL-Library.Word"
begin

section \<open>Data model (map.h, loc.h, queue.h)\<close>

type_synonym u32 = "32 word"

text \<open>\<^verbatim>\<open>#define COST_UNDEF 0xFFFFFFFF\<close>; the pending mark written by
  \<^verbatim>\<open>_compute_cell_cost\<close> is \<^verbatim>\<open>COST_UNDEF - 1\<close>.\<close>

definition COST_UNDEF :: u32 where
  "COST_UNDEF = 0xFFFFFFFF"

text \<open>\<^verbatim>\<open>typedef enum soil { BASE_STATION, PLAIN, ERG, REG, CREVASSE }\<close>. The file reader
  stores whatever number it reads; the model covers the maps whose numbers are these five.\<close>

datatype soil_e = BASE_STATION | PLAIN | ERG | REG | CREVASSE

text \<open>\<^verbatim>\<open>static const int _soil_cost[5] = {0, 1, 2, 4, 10000}\<close>, read into an
  \<^verbatim>\<open>unsigned int\<close>.\<close>

fun soil_cost :: "soil_e \<Rightarrow> u32" where
  "soil_cost BASE_STATION = 0"
| "soil_cost PLAIN = 1"
| "soil_cost ERG = 2"
| "soil_cost REG = 4"
| "soil_cost CREVASSE = 10000"

text \<open>\<^verbatim>\<open>struct position { unsigned int x; unsigned int y; }\<close>. The fields are
  called \<open>pos_x\<close> and \<open>pos_y\<close> here.\<close>

record position_s =
  pos_x :: u32
  pos_y :: u32

text \<open>\<^verbatim>\<open>struct map\<close>: both arrays are addressed \<^verbatim>\<open>[y][x]\<close>, a list of rows.\<close>

record map_s =
  width :: u32
  height :: u32
  soils :: "soil_e list list"
  costs :: "u32 list list"

text \<open>\<^verbatim>\<open>_direction_vectors[4][2] = {{-1, 0}, {1, 0}, {0, -1}, {0, 1}}\<close>; component 0 is
  added to x and component 1 to y.\<close>

definition direction_vectors :: "(int \<times> int) list" where
  "direction_vectors = [(-1, 0), (1, 0), (0, -1), (0, 1)]"

text \<open>\<^verbatim>\<open>POSITION_IS_VALID(position, map_width, map_height)\<close>.\<close>

definition POSITION_IS_VALID :: "position_s \<Rightarrow> u32 \<Rightarrow> u32 \<Rightarrow> bool" where
  "POSITION_IS_VALID p map_width map_height \<longleftrightarrow> pos_x p < map_width \<and> pos_y p < map_height"

text \<open>Every way the model can leave the defined behaviour of the C program: an array
  access outside the allocated rows and columns, and the two queue preconditions.\<close>

datatype error = OutOfBounds | QueueFull | QueueEmpty

text \<open>\<^verbatim>\<open>a[p.y][p.x]\<close> as a read and as a write. An index outside the array is
  reported, where C has undefined behaviour.\<close>

definition cell_get :: "'a list list \<Rightarrow> position_s \<Rightarrow> 'a option" where
  "cell_get a p =
     (if unat (pos_y p) < length a \<and> unat (pos_x p) < length (a ! unat (pos_y p))
      then Some (a ! unat (pos_y p) ! unat (pos_x p)) else None)"

definition cell_set :: "'a list list \<Rightarrow> position_s \<Rightarrow> 'a \<Rightarrow> 'a list list option" where
  "cell_set a p v =
     (if unat (pos_y p) < length a \<and> unat (pos_x p) < length (a ! unat (pos_y p))
      then Some (a[unat (pos_y p) := (a ! unat (pos_y p))[unat (pos_x p) := v]]) else None)"

subsection \<open>The queue\<close>

text \<open>\<^verbatim>\<open>struct s_queue { position_s *values; int size; int last; int first; }\<close> is
  declared in queue.h; the fields \<open>size\<close>, \<open>last\<close> and \<open>first\<close> carry the prefix
  \<open>q_\<close> here.\<close>

record t_queue =
  q_values :: "position_s list"
  q_size :: int
  q_last :: int
  q_first :: int

text \<open>Modelled from the spec: queue.c (\<^verbatim>\<open>createQueue\<close>, \<^verbatim>\<open>enqueue\<close>, \<^verbatim>\<open>dequeue\<close>)
  is missing. The spec describes a ring of coordinates sized to the capacity, with head and
  tail cursors, emptiness being equality of the cursors, and enqueueing past the capacity a
  violated precondition.\<close>

definition createQueue :: "int \<Rightarrow> t_queue" where
  "createQueue n =
     \<lparr>q_values = replicate (nat n) \<lparr>pos_x = 0, pos_y = 0\<rparr>, q_size = n, q_last = 0, q_first = 0\<rparr>"

text \<open>Modelled from the spec: queue.c is missing (see \<open>createQueue\<close>).\<close>

definition enqueue :: "t_queue \<Rightarrow> position_s \<Rightarrow> error + t_queue" where
  "enqueue q v =
     (if q_last q - q_first q < q_size q
      then Inr (q\<lparr>q_values := (q_values q)[nat (q_last q mod q_size q) := v],
                  q_last := q_last q + 1\<rparr>)
      else Inl QueueFull)"

text \<open>Modelled from the spec: queue.c is missing (see \<open>createQueue\<close>).\<close>

definition dequeue :: "t_queue \<Rightarrow> error + (position_s \<times> t_queue)" where
  "dequeue q =
     (if q_first q \<noteq> q_last q
      then Inr (q_values q ! nat (q_first q mod q_size q), q\<lparr>q_first := q_first q + 1\<rparr>)
      else Inl QueueEmpty)"

section \<open>The cost engine (map.c)\<close>

text \<open>The cells of a \<open>map_height\<close> by \<open>map_width\<close> grid in the order of the two nested
  \<^verbatim>\<open>for\<close> loops of \<^verbatim>\<open>_get_base_station_pos\<close> and \<^verbatim>\<open>_remove_false_costs\<close>:
  y outside, x inside.\<close>

definition row_major :: "u32 \<Rightarrow> u32 \<Rightarrow> position_s list" where
  "row_major map_width map_height =
     concat (map (\<lambda>j. map (\<lambda>i. \<lparr>pos_x = of_nat i, pos_y = of_nat j\<rparr>) [0..<unat map_width])
                 [0..<unat map_height])"

text \<open>\<^verbatim>\<open>_get_base_station_pos\<close>: the first cell of the scan whose soil is the base
  station, or the position (0xFFFFFFFF, 0xFFFFFFFF) when the scan finds none.\<close>

fun scan_base_station :: "soil_e list list \<Rightarrow> position_s list \<Rightarrow> error + position_s" where
  "scan_base_station a [] = Inr \<lparr>pos_x = 0xFFFFFFFF, pos_y = 0xFFFFFFFF\<rparr>"
| "scan_base_station a (p # ps) =
     (case cell_get a p of
        None \<Rightarrow> Inl OutOfBounds
      | Some s \<Rightarrow> if s = BASE_STATION then Inr p else scan_base_station a ps)"

definition get_base_station_pos :: "map_s \<Rightarrow> error + position_s" where
  "get_base_station_pos m = scan_base_station (soils m) (row_major (width m) (height m))"

text \<open>One iteration of the \<^verbatim>\<open>for\<close> loop of \<^verbatim>\<open>_compute_cell_cost\<close>, for the direction
  vector \<open>d\<close>. The loop state is \<open>cost_min\<close>, the cost array and the queue (\<open>None\<close> is
  the null pointer the repair pass hands over). The sum of an \<^verbatim>\<open>unsigned int\<close> and an
  \<^verbatim>\<open>int\<close> is taken modulo \<open>2 ^ 32\<close>.\<close>

definition neighbour_pos :: "position_s \<Rightarrow> int \<times> int \<Rightarrow> position_s" where
  "neighbour_pos position d =
     \<lparr>pos_x = pos_x position + word_of_int (fst d), pos_y = pos_y position + word_of_int (snd d)\<rparr>"

definition visit_neighbour ::
  "u32 \<Rightarrow> u32 \<Rightarrow> position_s \<Rightarrow> int \<times> int \<Rightarrow> u32 \<times> u32 list list \<times> t_queue option
     \<Rightarrow> error + (u32 \<times> u32 list list \<times> t_queue option)" where
  "visit_neighbour map_width map_height position d st =
     (case st of (cost_min, cs, queue) \<Rightarrow>
        let compute_pos = neighbour_pos position d in
        if POSITION_IS_VALID compute_pos map_width map_height then
          (case cell_get cs compute_pos of
             None \<Rightarrow> Inl OutOfBounds
           | Some compute_pos_cost \<Rightarrow>
               if compute_pos_cost < cost_min then Inr (compute_pos_cost, cs, queue)
               else (case queue of
                       None \<Rightarrow> Inr (cost_min, cs, queue)
                     | Some q \<Rightarrow>
                         if compute_pos_cost = COST_UNDEF then
                           (case enqueue q compute_pos of
                              Inl e \<Rightarrow> Inl e
                            | Inr q' \<Rightarrow>
                                (case cell_set cs compute_pos (COST_UNDEF - 1) of
                                   None \<Rightarrow> Inl OutOfBounds
                                 | Some cs' \<Rightarrow> Inr (cost_min, cs', Some q')))
                         else Inr (cost_min, cs, queue)))
        else Inr st)"

fun visit_neighbours ::
  "u32 \<Rightarrow> u32 \<Rightarrow> position_s \<Rightarrow> (int \<times> int) list \<Rightarrow> u32 \<times> u32 list list \<times> t_queue option
     \<Rightarrow> error + (u32 \<times> u32 list list \<times> t_queue option)" where
  "visit_neighbours map_width map_height position [] st = Inr st"
| "visit_neighbours map_width map_height position (d # ds) st =
     (case visit_neighbour map_width map_height position d st of
        Inl e \<Rightarrow> Inl e
      | Inr st' \<Rightarrow> visit_neighbours map_width map_height position ds st')"

text \<open>\<^verbatim>\<open>_compute_cell_cost(map, position, queue)\<close>. The C function writes through the
  pointers \<^verbatim>\<open>map.costs\<close> and \<^verbatim>\<open>queue\<close>; the model returns the cost together with the
  map and the queue as they are afterwards.\<close>

definition compute_cell_cost ::
  "map_s \<Rightarrow> position_s \<Rightarrow> t_queue option \<Rightarrow> error + (u32 \<times> map_s \<times> t_queue option)" where
  "compute_cell_cost m position queue =
     (case cell_get (soils m) position of
        None \<Rightarrow> Inl OutOfBounds
      | Some s \<Rightarrow>
          let soil_current_cost = soil_cost s in
          (case visit_neighbours (width m) (height m) position direction_vectors
                  (0xFFFFFFFF, costs m, queue) of
             Inl e \<Rightarrow> Inl e
           | Inr (cost_min, cs, queue') \<Rightarrow>
               Inr (if soil_current_cost \<noteq> 0 then cost_min + soil_current_cost else 0,
                    m\<lparr>costs := cs\<rparr>, queue')))"

text \<open>The body of the two loops of \<^verbatim>\<open>_remove_false_costs\<close> at one cell, and the sweep
  over the cells. \<^verbatim>\<open>&&\<close> reads the cost only when the soil is not a crevasse.\<close>

definition repair_cell :: "map_s \<Rightarrow> position_s \<Rightarrow> error + map_s" where
  "repair_cell m p =
     (case cell_get (soils m) p of
        None \<Rightarrow> Inl OutOfBounds
      | Some s \<Rightarrow>
          if s \<noteq> CREVASSE then
            (case cell_get (costs m) p of
               None \<Rightarrow> Inl OutOfBounds
             | Some c \<Rightarrow>
                 if c > 10000 then
                   (case compute_cell_cost m p None of
                      Inl e \<Rightarrow> Inl e
                    | Inr (v, m', _) \<Rightarrow>
                        (case cell_set (costs m') p v of
                           None \<Rightarrow> Inl OutOfBounds
                         | Some cs \<Rightarrow> Inr (m'\<lparr>costs := cs\<rparr>)))
                 else Inr m)
          else Inr m)"

fun sweep :: "map_s \<Rightarrow> position_s list \<Rightarrow> error + map_s" where
  "sweep m [] = Inr m"
| "sweep m (p # ps) = (case repair_cell m p of Inl e \<Rightarrow> Inl e | Inr m' \<Rightarrow> sweep m' ps)"

definition remove_false_costs :: "map_s \<Rightarrow> error + map_s" where
  "remove_false_costs m = sweep m (row_major (width m) (height m))"

text \<open>The body of the \<^verbatim>\<open>while\<close> loop of \<^verbatim>\<open>_compute_costs\<close>: dequeue, compute, store.\<close>

definition loop_body :: "map_s \<Rightarrow> t_queue \<Rightarrow> error + (map_s \<times> t_queue)" where
  "loop_body m q =
     (case dequeue q of
        Inl e \<Rightarrow> Inl e
      | Inr (current_pos, q1) \<Rightarrow>
          (case compute_cell_cost m current_pos (Some q1) of
             Inl e \<Rightarrow> Inl e
           | Inr (v, m', None) \<Rightarrow> Inl QueueEmpty
           | Inr (v, m', Some q') \<Rightarrow>
               (case cell_set (costs m') current_pos v of
                  None \<Rightarrow> Inl OutOfBounds
                | Some cs \<Rightarrow> Inr (m'\<lparr>costs := cs\<rparr>, q'))))"

text \<open>The \<^verbatim>\<open>while (queue.first != queue.last)\<close> loop. It is not known in advance to
  end, so the result is an option: \<open>None\<close> when the loop runs forever.\<close>

partial_function (option) compute_loop :: "map_s \<Rightarrow> t_queue \<Rightarrow> (error + map_s) option" where
  "compute_loop m q =
     (if q_first q \<noteq> q_last q then
        (case loop_body m q of
           Inl e \<Rightarrow> Some (Inl e)
         | Inr (m', q') \<Rightarrow> compute_loop m' q')
      else Some (Inr m))"

declare compute_loop.simps [code]

text \<open>The state of the same loop after \<open>n\<close> iterations, that is after \<open>n\<close> dequeues,
  or at its exit when the queue runs empty before. It serves to speak of the states a run
  goes through and to count its dequeues.\<close>

fun loop_iterate :: "nat \<Rightarrow> map_s \<Rightarrow> t_queue \<Rightarrow> error + (map_s \<times> t_queue)" where
  "loop_iterate 0 m q = Inr (m, q)"
| "loop_iterate (Suc n) m q =
     (if q_first q \<noteq> q_last q then
        (case loop_body m q of
           Inl e \<Rightarrow> Inl e
         | Inr (m', q') \<Rightarrow> loop_iterate n m' q')
      else Inr (m, q))"

text \<open>\<^verbatim>\<open>createQueue(map.width * map.height)\<close>: the product is an \<^verbatim>\<open>unsigned int\<close>
  handed over as an \<^verbatim>\<open>int\<close>.\<close>

definition initial_queue :: "map_s \<Rightarrow> t_queue" where
  "initial_queue m = createQueue (sint (width m * height m))"

text \<open>\<^verbatim>\<open>_compute_costs\<close>. Without a base station it returns at once and the map is as
  it was.\<close>

definition compute_costs :: "map_s \<Rightarrow> (error + map_s) option" where
  "compute_costs m =
     (case get_base_station_pos m of
        Inl e \<Rightarrow> Some (Inl e)
      | Inr base_station_pos \<Rightarrow>
          if pos_x base_station_pos = 0xFFFFFFFF \<or> pos_y base_station_pos = 0xFFFFFFFF
          then Some (Inr m)
          else (case enqueue (initial_queue m) base_station_pos of
                  Inl e \<Rightarrow> Some (Inl e)
                | Inr q \<Rightarrow> compute_loop m q))"

text \<open>\<^verbatim>\<open>_compute_costs\<close> observed after \<open>n\<close> iterations of its loop (or at the
  exit of the loop when it comes earlier): the same code with \<open>loop_iterate n\<close> in the place
  of the loop, returning the map and the queue of that moment.\<close>

definition compute_costs_steps :: "nat \<Rightarrow> map_s \<Rightarrow> error + (map_s \<times> t_queue)" where
  "compute_costs_steps n m =
     (case get_base_station_pos m of
        Inl e \<Rightarrow> Inl e
      | Inr base_station_pos \<Rightarrow>
          if pos_x base_station_pos = 0xFFFFFFFF \<or> pos_y base_station_pos = 0xFFFFFFFF
          then Inr (m, initial_queue m)
          else (case enqueue (initial_queue m) base_station_pos of
                  Inl e \<Rightarrow> Inl e
                | Inr q \<Rightarrow> loop_iterate n m q))"

text \<open>What \<^verbatim>\<open>_map_fill_from_file\<close> builds from the numbers of the file: the soils as
  read, and every cost set to 0xFFFFFFFF by \<^verbatim>\<open>memset\<close>. Reading the file itself is
  outside the model.\<close>

definition map_fill :: "u32 \<Rightarrow> u32 \<Rightarrow> soil_e list list \<Rightarrow> map_s" where
  "map_fill map_height map_width a =
     \<lparr>width = map_width, height = map_height, soils = a,
      costs = replicate (unat map_height) (replicate (unat map_width) 0xFFFFFFFF)\<rparr>"

text \<open>\<^verbatim>\<open>map_from_file\<close> after the file has been read: \<^verbatim>\<open>_compute_costs\<close>, then
  \<^verbatim>\<open>_remove_false_costs\<close>, whatever the first did.\<close>

definition map_from_file :: "u32 \<Rightarrow> u32 \<Rightarrow> soil_e list list \<Rightarrow> (error + map_s) option" where
  "map_from_file map_height map_width a =
     (case compute_costs (map_fill map_height map_width a) of
        None \<Rightarrow> None
      | Some (Inl e) \<Rightarrow> Some (Inl e)
      | Some (Inr m) \<Rightarrow> Some (remove_false_costs m))"

section \<open>Notions used to state and prove the properties\<close>

text \<open>A two-dimensional array has the declared dimensions: \<open>h\<close> rows of \<open>w\<close> cells, as
  \<^verbatim>\<open>_2d_array_allocation\<close> builds it.\<close>

definition grid_ok :: "u32 \<Rightarrow> u32 \<Rightarrow> 'a list list \<Rightarrow> bool" where
  "grid_ok w h a \<longleftrightarrow> length a = unat h \<and> (\<forall>r \<in> set a. length r = unat w)"

text \<open>Both arrays of a map have the dimensions the map declares.\<close>

definition map_ok :: "map_s \<Rightarrow> bool" where
  "map_ok m \<longleftrightarrow> grid_ok (width m) (height m) (soils m) \<and> grid_ok (width m) (height m) (costs m)"

text \<open>\<^verbatim>\<open>a[p.y][p.x]\<close> for a position known to be inside the array.\<close>

definition cell_at :: "'a list list \<Rightarrow> position_s \<Rightarrow> 'a" where
  "cell_at a p = a ! unat (pos_y p) ! unat (pos_x p)"

text \<open>The array after \<^verbatim>\<open>a[p.y][p.x] = v\<close>, for a position inside the array.\<close>

definition grid_upd :: "'a list list \<Rightarrow> position_s \<Rightarrow> 'a \<Rightarrow> 'a list list" where
  "grid_upd a p v = a[unat (pos_y p) := (a ! unat (pos_y p))[unat (pos_x p) := v]]"

text \<open>The neighbours of a cell that pass \<^verbatim>\<open>POSITION_IS_VALID\<close>, in the order of the direction
  vectors.\<close>

definition neighbours_in :: "u32 \<Rightarrow> u32 \<Rightarrow> position_s \<Rightarrow> (int \<times> int) list \<Rightarrow> position_s list" where
  "neighbours_in w h p ds = filter (\<lambda>n. POSITION_IS_VALID n w h) (map (neighbour_pos p) ds)"

definition neighbours :: "u32 \<Rightarrow> u32 \<Rightarrow> position_s \<Rightarrow> position_s list" where
  "neighbours w h p = neighbours_in w h p direction_vectors"

text \<open>The minimum the \<^verbatim>\<open>for\<close> loop of \<^verbatim>\<open>_compute_cell_cost\<close> keeps in \<open>cost_min\<close>,
  started at \<open>c0\<close>.\<close>

definition cost_min_from :: "u32 list list \<Rightarrow> position_s list \<Rightarrow> u32 \<Rightarrow> u32" where
  "cost_min_from cs ns c0 = fold (\<lambda>n acc. min (cell_at cs n) acc) ns c0"

text \<open>Several calls of \<^verbatim>\<open>enqueue\<close> in a row.\<close>

fun enqueue_all :: "t_queue \<Rightarrow> position_s list \<Rightarrow> error + t_queue" where
  "enqueue_all q [] = Inr q"
| "enqueue_all q (n # ns) = (case enqueue q n of Inl e \<Rightarrow> Inl e | Inr q' \<Rightarrow> enqueue_all q' ns)"

text \<open>The cost array after the pending mark has been written at each cell of a list.\<close>

definition mark_all :: "u32 list list \<Rightarrow> position_s list \<Rightarrow> u32 list list" where
  "mark_all cs ns = fold (\<lambda>n a. grid_upd a n (COST_UNDEF - 1)) ns cs"

text \<open>The cells of a list whose cost is 0xFFFFFFFF: the neighbours the call enqueues.\<close>

definition fresh_in :: "u32 list list \<Rightarrow> position_s list \<Rightarrow> position_s list" where
  "fresh_in cs ns = filter (\<lambda>n. cell_at cs n = COST_UNDEF) ns"

text \<open>The single-cell formula: the value \<^verbatim>\<open>_compute_cell_cost\<close> returns at \<open>p\<close> on the
  map \<open>m\<close>.\<close>

definition cell_value :: "map_s \<Rightarrow> position_s \<Rightarrow> u32" where
  "cell_value m p =
     (if soil_cost (cell_at (soils m) p) \<noteq> 0
      then cost_min_from (costs m) (neighbours (width m) (height m) p) 0xFFFFFFFF
             + soil_cost (cell_at (soils m) p)
      else 0)"

text \<open>Two maps agree on everything but the costs.\<close>

definition same_shape :: "map_s \<Rightarrow> map_s \<Rightarrow> bool" where
  "same_shape m m' \<longleftrightarrow> width m' = width m \<and> height m' = height m \<and> soils m' = soils m"

text \<open>The test of \<^verbatim>\<open>_remove_false_costs\<close> at one cell.\<close>

definition needs_repair :: "map_s \<Rightarrow> position_s \<Rightarrow> bool" where
  "needs_repair m p \<longleftrightarrow> cell_at (soils m) p \<noteq> CREVASSE \<and> cell_at (costs m) p > 10000"

text \<open>The Manhattan distance between two cells.\<close>

definition manhattan :: "position_s \<Rightarrow> position_s \<Rightarrow> nat" where
  "manhattan p r =
     nat \<bar>int (unat (pos_x p)) - int (unat (pos_x r))\<bar> + nat \<bar>int (unat (pos_y p)) - int (unat (pos_y r))\<bar>"

text \<open>A queue whose cursors have not passed the capacity: the ring has not wrapped.\<close>

definition queue_ok :: "t_queue \<Rightarrow> bool" where
  "queue_ok q \<longleftrightarrow>
     0 \<le> q_first q \<and> q_first q \<le> q_last q \<and> q_last q \<le> q_size q \<and>
     length (q_values q) = nat (q_size q)"

text \<open>The number of cells of a grid, as a natural number (no wrap-around).\<close>

definition cell_count :: "u32 \<Rightarrow> u32 \<Rightarrow> nat" where
  "cell_count w h = unat w * unat h"

text \<open>Every position written into the queue so far, in the order of the calls (for a queue
  that has not wrapped); \<open>settled\<close> are the ones dequeued, \<open>pending\<close> the ones still waiting.\<close>

definition enqueued :: "t_queue \<Rightarrow> position_s list" where
  "enqueued q = take (nat (q_last q)) (q_values q)"

definition settled :: "t_queue \<Rightarrow> position_s list" where
  "settled q = take (nat (q_first q)) (enqueued q)"

definition pending :: "t_queue \<Rightarrow> position_s list" where
  "pending q = drop (nat (q_first q)) (enqueued q)"

text \<open>A grid on which no cost can reach the two marks: every terrain cost on it being at most
  \<open>cap\<close>, a path through all the cells costs at most 4294960000, and the number of cells
  fits the \<^verbatim>\<open>int\<close> capacity of the queue.\<close>

definition grid_small :: "nat \<Rightarrow> u32 \<Rightarrow> u32 \<Rightarrow> bool" where
  "grid_small cap w h \<longleftrightarrow> cell_count w h < 2147483648 \<and> cap * cell_count w h \<le> 4294960000"

text \<open>What holds of a cell waiting in the queue: it carries the pending mark and has a
  neighbour already dequeued, or it is the base station at the very start.\<close>

definition awaiting :: "map_s \<Rightarrow> t_queue \<Rightarrow> position_s \<Rightarrow> position_s \<Rightarrow> bool" where
  "awaiting m q b p \<longleftrightarrow>
     cell_at (costs m) p = COST_UNDEF - 1 \<and>
       (\<exists>n \<in> set (neighbours (width m) (height m) p). n \<in> set (settled q)) \<or>
     q_first q = 0 \<and> p = b \<and> cell_at (costs m) p = COST_UNDEF"

text \<open>The invariant of the \<^verbatim>\<open>while\<close> loop on a small grid. \<open>m0\<close> is the map at the start,
  \<open>b\<close> the base station found by the scan.\<close>

definition bfs_inv :: "nat \<Rightarrow> map_s \<Rightarrow> position_s \<Rightarrow> map_s \<Rightarrow> t_queue \<Rightarrow> bool" where
  "bfs_inv cap m0 b m q \<longleftrightarrow>
     map_ok m \<and> same_shape m0 m \<and> queue_ok q \<and>
     q_size q = int (cell_count (width m0) (height m0)) \<and>
     distinct (enqueued q) \<and>
     (\<forall>p \<in> set (enqueued q). POSITION_IS_VALID p (width m0) (height m0)) \<and>
     enqueued q \<noteq> [] \<and> hd (enqueued q) = b \<and> cell_at (soils m0) b = BASE_STATION \<and>
     (\<forall>p. POSITION_IS_VALID p (width m0) (height m0) \<longrightarrow> p \<notin> set (enqueued q) \<longrightarrow>
          cell_at (costs m) p = COST_UNDEF) \<and>
     (\<forall>p \<in> set (pending q). awaiting m q b p) \<and>
     (\<forall>p \<in> set (settled q). unat (cell_at (costs m) p) \<le> cap * nat (q_first q)) \<and>
     (0 < q_first q \<longrightarrow> cell_at (costs m) b = 0) \<and>
     (\<forall>p. POSITION_IS_VALID p (width m0) (height m0) \<longrightarrow>
          unat (soil_cost (cell_at (soils m0) p)) \<le> cap)"

text \<open>Every cost is 0xFFFFFFFF, as after \<^verbatim>\<open>memset\<close>.\<close>

definition all_undef :: "map_s \<Rightarrow> bool" where
  "all_undef m \<longleftrightarrow>
     (\<forall>p. POSITION_IS_VALID p (width m) (height m) \<longrightarrow> cell_at (costs m) p = COST_UNDEF)"

text \<open>The part of the invariant about the base station that needs no bound on the grid: its
  cost is 0, or it is the position about to be dequeued.\<close>

definition origin_inv :: "map_s \<Rightarrow> position_s \<Rightarrow> map_s \<Rightarrow> t_queue \<Rightarrow> bool" where
  "origin_inv m0 b m q \<longleftrightarrow>
     map_ok m \<and> same_shape m0 m \<and> POSITION_IS_VALID b (width m0) (height m0) \<and>
     cell_at (soils m0) b = BASE_STATION \<and>
     (cell_at (costs m) b = 0 \<or>
      q_first q \<noteq> q_last q \<and> q_values q ! nat (q_first q mod q_size q) = b)"

text \<open>The distance between two natural numbers.\<close>

definition gap :: "nat \<Rightarrow> nat \<Rightarrow> nat" where
  "gap i j = (i - j) + (j - i)"

text \<open>The invariant of the loop on a grid of plain cells: the queue holds the cells in the
  order of their distance from the base station, and the dequeued cells hold that distance.\<close>

definition bfs_levels :: "map_s \<Rightarrow> position_s \<Rightarrow> map_s \<Rightarrow> t_queue \<Rightarrow> bool" where
  "bfs_levels m0 b m q \<longleftrightarrow>
     (\<forall>p \<in> set (settled q). unat (cell_at (costs m) p) = manhattan p b) \<and>
     sorted_wrt (\<lambda>p r. manhattan p b \<le> manhattan r b) (enqueued q) \<and>
     (\<forall>p \<in> set (pending q). manhattan p b \<le> manhattan (hd (pending q)) b + 1) \<and>
     (\<forall>p. pending q \<noteq> [] \<longrightarrow> POSITION_IS_VALID p (width m0) (height m0) \<longrightarrow>
          manhattan p b < manhattan (hd (pending q)) b \<longrightarrow> p \<in> set (settled q)) \<and>
     (\<forall>p \<in> set (settled q). set (neighbours (width m0) (height m0) p) \<subseteq> set (enqueued q))"

text \<open>Every cell but \<open>b\<close> is plain.\<close>

definition plain_grid :: "map_s \<Rightarrow> position_s \<Rightarrow> bool" where
  "plain_grid m0 b \<longleftrightarrow>
     (\<forall>p. POSITION_IS_VALID p (width m0) (height m0) \<longrightarrow> p \<noteq> b \<longrightarrow>
          cell_at (soils m0) p = PLAIN)"

text \<open>Every cost is the Manhattan distance from \<open>b\<close>.\<close>

definition distance_map :: "map_s \<Rightarrow> position_s \<Rightarrow> map_s \<Rightarrow> bool" where
  "distance_map m0 b m \<longleftrightarrow>
     map_ok m \<and> same_shape m0 m \<and>
     (\<forall>p. POSITION_IS_VALID p (width m0) (height m0) \<longrightarrow>
          unat (cell_at (costs m) p) = manhattan p b \<and> manhattan p b \<le> 4294960000)"

text \<open>The cell \<open>i\<close> of a grid of one row.\<close>

definition corridor_pos :: "nat \<Rightarrow> position_s" where
  "corridor_pos i = \<lparr>pos_x = of_nat i, pos_y = 0\<rparr>"

text \<open>On a row that starts with the base station followed by the soils \<open>ts\<close>: the sum of the
  terrain costs of the cells 1 to \<open>j\<close>, without wrap-around.\<close>

definition path_cost :: "soil_e list \<Rightarrow> nat \<Rightarrow> nat" where
  "path_cost ts j = sum_list (map (\<lambda>s. unat (soil_cost s)) (take j ts))"

text \<open>The state of the loop on such a row after \<open>n\<close> iterations, as long as no cost has
  reached 0xFFFFFFFF before: the cells 0 to \<open>n\<close> have been enqueued in this order, the cells
  before \<open>n\<close> hold their path cost, the cell \<open>n\<close> waits in the queue.\<close>

definition corridor_state :: "u32 \<Rightarrow> soil_e list \<Rightarrow> nat \<Rightarrow> map_s \<Rightarrow> t_queue \<Rightarrow> bool" where
  "corridor_state w ts n m q \<longleftrightarrow>
     map_ok m \<and> width m = w \<and> height m = 1 \<and> soils m = [BASE_STATION # ts] \<and>
     queue_ok q \<and> q_size q = int (cell_count w 1) \<and> q_first q = int n \<and>
     enqueued q = map corridor_pos [0..<Suc n] \<and>
     (\<forall>i < n. cell_at (costs m) (corridor_pos i) = of_nat (path_cost ts i)) \<and>
     cell_at (costs m) (corridor_pos n) = (if n = 0 then COST_UNDEF else COST_UNDEF - 1) \<and>
     (\<forall>i. n < i \<longrightarrow> i < unat w \<longrightarrow> cell_at (costs m) (corridor_pos i) = COST_UNDEF)"

section \<open>Auxiliary lemmas\<close>

lemma valid_unat:
  "POSITION_IS_VALID p w h \<longleftrightarrow> unat (pos_x p) < unat w \<and> unat (pos_y p) < unat h"
  by (simp add: POSITION_IS_VALID_def word_less_nat_alt)

lemma cell_get_valid:
  "grid_ok w h a \<Longrightarrow> POSITION_IS_VALID p w h \<Longrightarrow> cell_get a p = Some (cell_at a p)"
  by (simp add: grid_ok_def valid_unat cell_get_def cell_at_def)

lemma cell_set_valid:
  "grid_ok w h a \<Longrightarrow> POSITION_IS_VALID p w h \<Longrightarrow> cell_set a p v = Some (grid_upd a p v)"
  by (simp add: grid_ok_def valid_unat cell_set_def grid_upd_def)

lemma grid_ok_upd: "grid_ok w h a \<Longrightarrow> grid_ok w h (grid_upd a p v)"
proof -
  assume a: "grid_ok w h a"
  have "length r = unat w" if "r \<in> set (grid_upd a p v)" for r
  proof -
    from that obtain i where i: "i < length a" "r = grid_upd a p v ! i"
      by (auto simp: in_set_conv_nth grid_upd_def)
    then have "length r = length (a ! i)"
      by (cases "i = unat (pos_y p)") (simp_all add: grid_upd_def)
    then show ?thesis using a i by (simp add: grid_ok_def)
  qed
  then show ?thesis using a by (simp add: grid_ok_def grid_upd_def)
qed

lemma position_eq_iff: "(p :: position_s) = r \<longleftrightarrow> pos_x p = pos_x r \<and> pos_y p = pos_y r"
  by (cases p; cases r) simp

lemma cell_at_upd:
  "grid_ok w h a \<Longrightarrow> POSITION_IS_VALID p w h \<Longrightarrow> POSITION_IS_VALID r w h \<Longrightarrow>
   cell_at (grid_upd a p v) r = (if r = p then v else cell_at a r)"
  by (auto simp: grid_ok_def valid_unat cell_at_def grid_upd_def position_eq_iff nth_list_update
           simp flip: word_unat_eq_iff)

lemma visit_neighbours_None:
  "grid_ok w h cs \<Longrightarrow>
   visit_neighbours w h p ds (cmin, cs, None) =
     Inr (cost_min_from cs (neighbours_in w h p ds) cmin, cs, None)"
proof (induction ds arbitrary: cmin)
  case Nil
  then show ?case by (simp add: cost_min_from_def neighbours_in_def)
next
  case (Cons d ds)
  show ?case
  proof (cases "POSITION_IS_VALID (neighbour_pos p d) w h")
    case True
    then have g: "cell_get cs (neighbour_pos p d) = Some (cell_at cs (neighbour_pos p d))"
      using Cons.prems by (rule cell_get_valid [rotated])
    show ?thesis
      using True Cons.prems
      by (auto simp: visit_neighbour_def g Cons.IH cost_min_from_def neighbours_in_def min_def Let_def)
  next
    case False
    then show ?thesis
      using Cons.prems
      by (simp add: visit_neighbour_def Cons.IH cost_min_from_def neighbours_in_def)
  qed
qed

lemma compute_cell_cost_None:
  assumes "map_ok m" and "POSITION_IS_VALID p (width m) (height m)"
  shows "compute_cell_cost m p None =
    Inr (if soil_cost (cell_at (soils m) p) \<noteq> 0
         then cost_min_from (costs m) (neighbours (width m) (height m) p) 0xFFFFFFFF
                + soil_cost (cell_at (soils m) p)
         else 0, m, None)"
proof -
  have g: "cell_get (soils m) p = Some (cell_at (soils m) p)"
    using assms cell_get_valid [of "width m" "height m" "soils m" p] by (simp add: map_ok_def)
  have v: "visit_neighbours (width m) (height m) p direction_vectors (0xFFFFFFFF, costs m, None) =
      Inr (cost_min_from (costs m) (neighbours (width m) (height m) p) 0xFFFFFFFF, costs m, None)"
    using assms by (simp add: map_ok_def visit_neighbours_None neighbours_def)
  show ?thesis
    unfolding compute_cell_cost_def g v by simp
qed

lemma neighbours_in_valid: "n \<in> set (neighbours_in w h p ds) \<Longrightarrow> POSITION_IS_VALID n w h"
  by (simp add: neighbours_in_def)

lemma cost_min_from_cong:
  "(\<And>n. n \<in> set ns \<Longrightarrow> cell_at cs' n = cell_at cs n) \<Longrightarrow>
   cost_min_from cs' ns c = cost_min_from cs ns c"
  by (induction ns arbitrary: c) (simp_all add: cost_min_from_def)

lemma fresh_in_cong:
  "(\<And>n. n \<in> set ns \<Longrightarrow> cell_at cs' n = cell_at cs n) \<Longrightarrow> fresh_in cs' ns = fresh_in cs ns"
  unfolding fresh_in_def by (rule filter_cong) simp_all

lemma undef_not_less: "\<not> (COST_UNDEF < (c :: u32))"
proof -
  have "(0xFFFFFFFF :: u32) = - 1" by simp
  then show ?thesis unfolding COST_UNDEF_def by (simp only: not_less word_order.extremum)
qed

lemma visit_neighbours_Some:
  assumes "grid_ok w h cs" and "distinct (map (neighbour_pos p) ds)"
  shows "visit_neighbours w h p ds (cmin, cs, Some q) =
     (case enqueue_all q (fresh_in cs (neighbours_in w h p ds)) of
        Inl e \<Rightarrow> Inl e
      | Inr q' \<Rightarrow> Inr (cost_min_from cs (neighbours_in w h p ds) cmin,
                         mark_all cs (fresh_in cs (neighbours_in w h p ds)), Some q'))"
  using assms
proof (induction ds arbitrary: cmin cs q)
  case Nil
  then show ?case
    by (simp add: cost_min_from_def neighbours_in_def fresh_in_def mark_all_def)
next
  case (Cons d ds)
  let ?n = "neighbour_pos p d"
  have dist: "distinct (map (neighbour_pos p) ds)" and notin: "?n \<notin> set (neighbours_in w h p ds)"
    using Cons.prems(2) by (auto simp: neighbours_in_def)
  show ?case
  proof (cases "POSITION_IS_VALID ?n w h")
    case False
    have "visit_neighbour w h p d (cmin, cs, Some q) = Inr (cmin, cs, Some q)"
      using False by (simp add: visit_neighbour_def)
    moreover have "neighbours_in w h p (d # ds) = neighbours_in w h p ds"
      using False by (simp add: neighbours_in_def)
    ultimately show ?thesis
      using Cons.IH [OF Cons.prems(1) dist] by (simp cong: sum.case_cong)
  next
    case True
    have g: "cell_get cs ?n = Some (cell_at cs ?n)"
      using Cons.prems(1) True by (rule cell_get_valid)
    have nb: "neighbours_in w h p (d # ds) = ?n # neighbours_in w h p ds"
      using True by (simp add: neighbours_in_def)
    show ?thesis
    proof (cases "cell_at cs ?n = COST_UNDEF")
      case undef: True
      have nl: "\<not> cell_at cs ?n < cmin"
        using undef undef_not_less by simp
      have fr: "fresh_in cs (neighbours_in w h p (d # ds)) = ?n # fresh_in cs (neighbours_in w h p ds)"
        using undef by (simp add: nb fresh_in_def)
      have mn: "cost_min_from cs (neighbours_in w h p (d # ds)) cmin =
                cost_min_from cs (neighbours_in w h p ds) cmin"
        using nl by (simp add: nb cost_min_from_def min_def)
      show ?thesis
      proof (cases "enqueue q ?n")
        case (Inl e)
        have "visit_neighbour w h p d (cmin, cs, Some q) = Inl e"
          using True nl undef Inl by (simp add: visit_neighbour_def g)
        then show ?thesis
          using Inl by (simp add: fr cong: sum.case_cong)
      next
        case (Inr q1)
        let ?cs1 = "grid_upd cs ?n (COST_UNDEF - 1)"
        have ok1: "grid_ok w h ?cs1"
          using Cons.prems(1) by (rule grid_ok_upd)
        have same: "cell_at ?cs1 r = cell_at cs r" if "r \<in> set (neighbours_in w h p ds)" for r
        proof -
          have "POSITION_IS_VALID r w h"
            using that by (simp add: neighbours_in_def)
          moreover have "r \<noteq> ?n"
            using that notin by blast
          ultimately show ?thesis
            using cell_at_upd [OF Cons.prems(1) True] by simp
        qed
        have step: "visit_neighbour w h p d (cmin, cs, Some q) = Inr (cmin, ?cs1, Some q1)"
          using True nl undef Inr
          by (simp add: visit_neighbour_def g cell_set_valid [OF Cons.prems(1) True])
        have "visit_neighbours w h p (d # ds) (cmin, cs, Some q) =
              visit_neighbours w h p ds (cmin, ?cs1, Some q1)"
          by (simp add: step)
        also have "\<dots> = (case enqueue_all q1 (fresh_in ?cs1 (neighbours_in w h p ds)) of
              Inl e \<Rightarrow> Inl e
            | Inr q' \<Rightarrow> Inr (cost_min_from ?cs1 (neighbours_in w h p ds) cmin,
                         mark_all ?cs1 (fresh_in ?cs1 (neighbours_in w h p ds)), Some q'))"
          by (rule Cons.IH [OF ok1 dist])
        finally show ?thesis
          using Inr
          by (simp add: fr mn fresh_in_cong [of _ ?cs1 cs, OF same]
                cost_min_from_cong [of _ ?cs1 cs, OF same] mark_all_def cong: sum.case_cong)
      qed
    next
      case def: False
      have fr: "fresh_in cs (neighbours_in w h p (d # ds)) = fresh_in cs (neighbours_in w h p ds)"
        using def by (simp add: nb fresh_in_def)
      have "visit_neighbour w h p d (cmin, cs, Some q) = Inr (min (cell_at cs ?n) cmin, cs, Some q)"
        using True def by (auto simp: visit_neighbour_def g min_def Let_def)
      moreover have "cost_min_from cs (neighbours_in w h p (d # ds)) cmin =
                cost_min_from cs (neighbours_in w h p ds) (min (cell_at cs ?n) cmin)"
        by (simp add: nb cost_min_from_def)
      ultimately show ?thesis
        using Cons.IH [OF Cons.prems(1) dist] by (simp add: fr cong: sum.case_cong)
    qed
  qed
qed

lemma neighbour_pos_distinct: "distinct (map (neighbour_pos p) direction_vectors)"
  by (simp add: direction_vectors_def neighbour_pos_def)

lemma compute_cell_cost_Some:
  assumes "map_ok m" and "POSITION_IS_VALID p (width m) (height m)"
  shows "compute_cell_cost m p (Some q) =
    (case enqueue_all q (fresh_in (costs m) (neighbours (width m) (height m) p)) of
       Inl e \<Rightarrow> Inl e
     | Inr q' \<Rightarrow>
         Inr (cell_value m p,
              m\<lparr>costs := mark_all (costs m) (fresh_in (costs m) (neighbours (width m) (height m) p))\<rparr>,
              Some q'))"
proof -
  have g: "cell_get (soils m) p = Some (cell_at (soils m) p)"
    using assms cell_get_valid [of "width m" "height m" "soils m" p] by (simp add: map_ok_def)
  have ok: "grid_ok (width m) (height m) (costs m)"
    using assms by (simp add: map_ok_def)
  show ?thesis
    unfolding compute_cell_cost_def g
    by (simp add: visit_neighbours_Some [OF ok neighbour_pos_distinct] neighbours_def cell_value_def
          split: sum.splits cong: sum.case_cong)
qed

lemma compute_cell_cost_None':
  assumes "map_ok m" and "POSITION_IS_VALID p (width m) (height m)"
  shows "compute_cell_cost m p None = Inr (cell_value m p, m, None)"
  using compute_cell_cost_None [OF assms] by (simp add: cell_value_def)

lemma enqueue_all_error: "enqueue_all q ns = Inl e \<Longrightarrow> e = QueueFull"
  by (induction ns arbitrary: q) (auto simp: enqueue_def split: if_splits sum.splits)

lemma cost_min_from_const:
  "(\<And>n. n \<in> set ns \<Longrightarrow> cell_at cs n = c) \<Longrightarrow>
   cost_min_from cs ns c0 = (if ns = [] then c0 else min c c0)"
proof (induction ns arbitrary: c0)
  case Nil
  then show ?case by (simp add: cost_min_from_def)
next
  case (Cons n ns)
  have "cost_min_from cs (n # ns) c0 = cost_min_from cs ns (min c c0)"
    using Cons.prems [of n] by (simp add: cost_min_from_def)
  also have "\<dots> = (if ns = [] then min c c0 else min c (min c c0))"
    using Cons.prems by (intro Cons.IH) simp
  finally show ?case by simp
qed

lemma compute_cell_cost_value:
  assumes "map_ok m" and "POSITION_IS_VALID p (width m) (height m)"
    and "compute_cell_cost m p queue = Inr (v, m', queue')"
  shows "v = cell_value m p"
proof (cases queue)
  case None
  then show ?thesis
    using assms(3) compute_cell_cost_None' [OF assms(1,2)] by auto
next
  case (Some q)
  then show ?thesis
    using assms(3) compute_cell_cost_Some [OF assms(1,2), of q] by (simp split: sum.splits)
qed

lemma unat_pred:
  assumes "(a :: u32) - 1 < w"
  shows "a \<noteq> 0 \<and> int (unat (a - 1)) = int (unat a) - 1"
proof -
  have a: "a \<noteq> 0"
  proof
    assume "a = 0"
    then have "(- 1 :: u32) < w" using assms by simp
    moreover have "\<not> (- 1 :: u32) < w" by (rule leD) simp
    ultimately show False by (rule notE [rotated])
  qed
  then have "0 < unat a" by (simp add: unat_gt_0)
  moreover have "unat (a - 1) = unat a - 1" using a by (simp add: unat_minus_one)
  ultimately show ?thesis using a by (simp add: of_nat_diff)
qed

lemma unat_succ:
  assumes "(a :: u32) < w"
  shows "unat (a + 1) = unat a + 1"
proof -
  have "unat a < unat w" using assms by (simp add: word_less_nat_alt)
  moreover have "unat w < 2 ^ 32" using unsigned_less [of w] by simp
  ultimately have "unat a + unat (1 :: u32) < 2 ^ LENGTH(32)" by simp
  then have "unat (a + 1) = unat a + unat (1 :: u32)"
    by (simp only: unat_add_lem [THEN iffD1])
  then show ?thesis by simp
qed

lemma neighbour_adjacent:
  assumes "POSITION_IS_VALID p w h" and "d \<in> set direction_vectors"
    and "POSITION_IS_VALID (neighbour_pos p d) w h"
  shows "int (unat (pos_x (neighbour_pos p d))) = int (unat (pos_x p)) + fst d \<and>
         int (unat (pos_y (neighbour_pos p d))) = int (unat (pos_y p)) + snd d"
proof -
  consider "d = (-1, 0)" | "d = (1, 0)" | "d = (0, -1)" | "d = (0, 1)"
    using assms(2) by (auto simp: direction_vectors_def)
  then show ?thesis
  proof cases
    case 1
    then have "pos_x p - 1 < w"
      using assms(3) by (simp add: neighbour_pos_def POSITION_IS_VALID_def)
    from unat_pred [OF this] show ?thesis
      using 1 by (simp add: neighbour_pos_def)
  next
    case 2
    have "pos_x p < w" using assms(1) by (simp add: POSITION_IS_VALID_def)
    from unat_succ [OF this] show ?thesis
      using 2 by (simp add: neighbour_pos_def)
  next
    case 3
    then have "pos_y p - 1 < h"
      using assms(3) by (simp add: neighbour_pos_def POSITION_IS_VALID_def)
    from unat_pred [OF this] show ?thesis
      using 3 by (simp add: neighbour_pos_def)
  next
    case 4
    have "pos_y p < h" using assms(1) by (simp add: POSITION_IS_VALID_def)
    from unat_succ [OF this] show ?thesis
      using 4 by (simp add: neighbour_pos_def)
  qed
qed

lemma grid_ok_mark_all: "grid_ok w h cs \<Longrightarrow> grid_ok w h (mark_all cs ns)"
  unfolding mark_all_def by (induction ns arbitrary: cs) (simp_all add: grid_ok_upd)

lemma unat_of_nat_u32: "i < unat (w :: u32) \<Longrightarrow> unat (of_nat i :: u32) = i"
  by (rule le_unat_uoi [of i w]) simp

lemma row_major_set:
  "p \<in> set (row_major w h) \<longleftrightarrow> POSITION_IS_VALID p w h"
proof
  assume "p \<in> set (row_major w h)"
  then obtain i j where "i < unat w" "j < unat h" "p = \<lparr>pos_x = of_nat i, pos_y = of_nat j\<rparr>"
    by (auto simp: row_major_def)
  then show "POSITION_IS_VALID p w h"
    by (simp add: valid_unat unat_of_nat_u32)
next
  assume "POSITION_IS_VALID p w h"
  then have "unat (pos_x p) < unat w" "unat (pos_y p) < unat h"
    by (simp_all add: valid_unat)
  moreover have "p = \<lparr>pos_x = of_nat (unat (pos_x p)), pos_y = of_nat (unat (pos_y p))\<rparr>"
    by simp
  ultimately show "p \<in> set (row_major w h)"
    unfolding row_major_def by (auto intro!: bexI [of _ "unat (pos_y p)"] image_eqI [of _ _ "unat (pos_x p)"])
qed

lemma row_major_distinct: "distinct (row_major w h)"
proof -
  let ?row = "\<lambda>j. map (\<lambda>i. \<lparr>pos_x = of_nat i :: u32, pos_y = of_nat j :: u32\<rparr>) [0..<unat w]"
  have inj_x: "inj_on (\<lambda>i. \<lparr>pos_x = of_nat i :: u32, pos_y = c\<rparr>) {0..<unat w}" for c
  proof (rule inj_onI)
    fix i k assume "i \<in> {0..<unat w}" "k \<in> {0..<unat w}"
      and "\<lparr>pos_x = of_nat i :: u32, pos_y = c\<rparr> = \<lparr>pos_x = of_nat k, pos_y = c\<rparr>"
    then have "unat (of_nat i :: u32) = unat (of_nat k :: u32)" "i < unat w" "k < unat w" by simp_all
    then show "i = k" by (simp add: unat_of_nat_u32)
  qed
  have inj_row: "inj_on ?row {0..<unat h}" if "0 < unat w"
  proof (rule inj_onI)
    fix j k assume "j \<in> {0..<unat h}" "k \<in> {0..<unat h}" and eq: "?row j = ?row k"
    then have jk: "j < unat h" "k < unat h" by simp_all
    from eq have "map pos_y (?row j) = map pos_y (?row k)" by (rule arg_cong)
    then have "replicate (unat w) (of_nat j :: u32) = replicate (unat w) (of_nat k)"
      by (simp add: comp_def map_replicate_const)
    then have "(of_nat j :: u32) = of_nat k" using that by (simp add: replicate_eq_replicate)
    then have "unat (of_nat j :: u32) = unat (of_nat k :: u32)" by simp
    then show "j = k" using jk by (simp add: unat_of_nat_u32)
  qed
  show ?thesis
  proof (cases "0 < unat w")
    case False
    then have "row_major w h = []" by (simp add: row_major_def)
    then show ?thesis by simp
  next
    case True
    have "distinct (map ?row [0..<unat h])"
      using inj_row [OF True] by (simp add: distinct_map)
    moreover have "distinct ys" if "ys \<in> set (map ?row [0..<unat h])" for ys
      using that inj_x by (auto simp: distinct_map)
    moreover have "set ys \<inter> set zs = {}"
      if "ys \<in> set (map ?row [0..<unat h])" "zs \<in> set (map ?row [0..<unat h])" "ys \<noteq> zs" for ys zs
    proof -
      from that(1,2) obtain j k where jk: "j < unat h" "k < unat h" "ys = ?row j" "zs = ?row k"
        by auto
      with that(3) have "j \<noteq> k" by auto
      then have "(of_nat j :: u32) \<noteq> of_nat k"
        using jk unat_of_nat_u32 [of j h] unat_of_nat_u32 [of k h] by auto
      then show ?thesis using jk by auto
    qed
    ultimately show ?thesis
      unfolding row_major_def by (rule distinct_concat)
  qed
qed

lemma sweep_append:
  "sweep m (ps @ rs) = (case sweep m ps of Inl e \<Rightarrow> Inl e | Inr m1 \<Rightarrow> sweep m1 rs)"
  by (induction ps arbitrary: m) (simp_all split: sum.splits)

lemma repair_cell_eq:
  assumes "map_ok m" and "POSITION_IS_VALID p (width m) (height m)"
  shows "repair_cell m p =
     Inr (if needs_repair m p then m\<lparr>costs := grid_upd (costs m) p (cell_value m p)\<rparr> else m)"
proof -
  have gs: "cell_get (soils m) p = Some (cell_at (soils m) p)"
    and gc: "cell_get (costs m) p = Some (cell_at (costs m) p)"
    and sc: "cell_set (costs m) p v = Some (grid_upd (costs m) p v)" for v
    using assms cell_get_valid [of "width m" "height m" "soils m" p]
      cell_get_valid [of "width m" "height m" "costs m" p]
      cell_set_valid [of "width m" "height m" "costs m" p] by (simp_all add: map_ok_def)
  show ?thesis
    unfolding repair_cell_def gs gc
    by (simp add: compute_cell_cost_None' [OF assms] sc needs_repair_def)
qed

lemma same_shape_refl: "same_shape m m"
  by (simp add: same_shape_def)

lemma sweep_effect:
  assumes "map_ok m"
  shows "distinct ps \<Longrightarrow> \<forall>p \<in> set ps. POSITION_IS_VALID p (width m) (height m) \<Longrightarrow>
     \<exists>m'. sweep m ps = Inr m' \<and> map_ok m' \<and> same_shape m m' \<and>
        (\<forall>r. POSITION_IS_VALID r (width m) (height m) \<longrightarrow> r \<notin> set ps \<longrightarrow>
             cell_at (costs m') r = cell_at (costs m) r) \<and>
        (\<forall>i < length ps. \<exists>mi. sweep m (take i ps) = Inr mi \<and> map_ok mi \<and> same_shape m mi \<and>
             cell_at (costs mi) (ps ! i) = cell_at (costs m) (ps ! i) \<and>
             cell_at (costs m') (ps ! i) =
               (if needs_repair mi (ps ! i) then cell_value mi (ps ! i)
                else cell_at (costs m) (ps ! i)))"
proof (induction ps rule: rev_induct)
  case Nil
  then show ?case using assms by (simp add: same_shape_refl)
next
  case (snoc p ps)
  from snoc.prems have dist: "distinct ps" and pnotin: "p \<notin> set ps"
    and valid: "\<forall>r \<in> set ps. POSITION_IS_VALID r (width m) (height m)"
    and pvalid: "POSITION_IS_VALID p (width m) (height m)"
    by simp_all
  from snoc.IH [OF dist valid] obtain m1 where
    m1: "sweep m ps = Inr m1" and ok1: "map_ok m1" and sh1: "same_shape m m1"
    and frame1: "\<And>r. POSITION_IS_VALID r (width m) (height m) \<Longrightarrow> r \<notin> set ps \<Longrightarrow>
                   cell_at (costs m1) r = cell_at (costs m) r"
    and eff1: "\<And>i. i < length ps \<Longrightarrow> \<exists>mi. sweep m (take i ps) = Inr mi \<and> map_ok mi \<and>
             same_shape m mi \<and> cell_at (costs mi) (ps ! i) = cell_at (costs m) (ps ! i) \<and>
             cell_at (costs m1) (ps ! i) =
               (if needs_repair mi (ps ! i) then cell_value mi (ps ! i)
                else cell_at (costs m) (ps ! i))"
    by blast
  have dims: "width m1 = width m" "height m1 = height m" "soils m1 = soils m"
    using sh1 by (simp_all add: same_shape_def)
  have pvalid1: "POSITION_IS_VALID p (width m1) (height m1)"
    using pvalid dims by simp
  have okc1: "grid_ok (width m) (height m) (costs m1)"
    using ok1 dims by (simp add: map_ok_def)
  define m2 where
    "m2 = (if needs_repair m1 p then m1\<lparr>costs := grid_upd (costs m1) p (cell_value m1 p)\<rparr> else m1)"
  have rc: "repair_cell m1 p = Inr m2"
    unfolding m2_def by (rule repair_cell_eq [OF ok1 pvalid1])
  have sw: "sweep m (ps @ [p]) = Inr m2"
    by (simp add: sweep_append m1 rc)
  have ok2: "map_ok m2"
    using ok1 by (simp add: m2_def map_ok_def grid_ok_upd)
  have sh2: "same_shape m m2"
    using sh1 by (simp add: m2_def same_shape_def)
  have other: "cell_at (costs m2) r = cell_at (costs m1) r"
    if "POSITION_IS_VALID r (width m) (height m)" "r \<noteq> p" for r
    using that cell_at_upd [OF okc1 pvalid that(1)] by (simp add: m2_def)
  have self: "cell_at (costs m2) p =
      (if needs_repair m1 p then cell_value m1 p else cell_at (costs m) p)"
    using cell_at_upd [OF okc1 pvalid pvalid] frame1 [OF pvalid pnotin] by (simp add: m2_def)
  have frame2: "cell_at (costs m2) r = cell_at (costs m) r"
    if "POSITION_IS_VALID r (width m) (height m)" "r \<notin> set (ps @ [p])" for r
    using that other [of r] frame1 [of r] by simp
  have eff2: "\<exists>mi. sweep m (take i (ps @ [p])) = Inr mi \<and> map_ok mi \<and> same_shape m mi \<and>
             cell_at (costs mi) ((ps @ [p]) ! i) = cell_at (costs m) ((ps @ [p]) ! i) \<and>
             cell_at (costs m2) ((ps @ [p]) ! i) =
               (if needs_repair mi ((ps @ [p]) ! i) then cell_value mi ((ps @ [p]) ! i)
                else cell_at (costs m) ((ps @ [p]) ! i))"
    if "i < length (ps @ [p])" for i
  proof (cases "i < length ps")
    case True
    then have "ps ! i \<in> set ps" by simp
    then have "ps ! i \<noteq> p" and "POSITION_IS_VALID (ps ! i) (width m) (height m)"
      using pnotin valid by auto
    then have c: "cell_at (costs m2) (ps ! i) = cell_at (costs m1) (ps ! i)"
      using other by simp
    from eff1 [OF True] obtain mi where "sweep m (take i ps) = Inr mi \<and> map_ok mi \<and>
             same_shape m mi \<and> cell_at (costs mi) (ps ! i) = cell_at (costs m) (ps ! i) \<and>
             cell_at (costs m1) (ps ! i) =
               (if needs_repair mi (ps ! i) then cell_value mi (ps ! i)
                else cell_at (costs m) (ps ! i))" ..
    then show ?thesis
      using True c by (intro exI [of _ mi]) (simp add: nth_append)
  next
    case False
    then have i: "i = length ps" using that by simp
    show ?thesis
      unfolding i using m1 ok1 sh1 self frame1 [OF pvalid pnotin] by simp
  qed
  show ?case
    using sw ok2 sh2 frame2 eff2 by blast
qed

lemma scan_base_station_split:
  assumes "grid_ok w h a" and "\<forall>p \<in> set ps. POSITION_IS_VALID p w h"
  shows "(scan_base_station a ps = Inr \<lparr>pos_x = 0xFFFFFFFF, pos_y = 0xFFFFFFFF\<rparr> \<and>
            (\<forall>p \<in> set ps. cell_at a p \<noteq> BASE_STATION)) \<or>
         (\<exists>pre b post. ps = pre @ b # post \<and> scan_base_station a ps = Inr b \<and>
            cell_at a b = BASE_STATION \<and> (\<forall>r \<in> set pre. cell_at a r \<noteq> BASE_STATION))"
  using assms(2)
proof (induction ps)
  case Nil
  then show ?case by simp
next
  case (Cons p ps)
  have g: "cell_get a p = Some (cell_at a p)"
    using assms(1) Cons.prems by (simp add: cell_get_valid)
  show ?case
  proof (cases "cell_at a p = BASE_STATION")
    case True
    then have "p # ps = [] @ p # ps \<and> scan_base_station a (p # ps) = Inr p \<and>
        cell_at a p = BASE_STATION \<and> (\<forall>r \<in> set []. cell_at a r \<noteq> BASE_STATION)"
      by (simp add: g)
    then show ?thesis by blast
  next
    case False
    then have sc: "scan_base_station a (p # ps) = scan_base_station a ps"
      by (simp add: g)
    from Cons.IH Cons.prems consider
      "scan_base_station a ps = Inr \<lparr>pos_x = 0xFFFFFFFF, pos_y = 0xFFFFFFFF\<rparr>"
        "\<forall>p \<in> set ps. cell_at a p \<noteq> BASE_STATION"
      | pre b post where "ps = pre @ b # post" "scan_base_station a ps = Inr b"
          "cell_at a b = BASE_STATION" "\<forall>r \<in> set pre. cell_at a r \<noteq> BASE_STATION"
      by auto
    then show ?thesis
    proof cases
      case 1
      then show ?thesis using False sc by simp
    next
      case 2
      then have "p # ps = (p # pre) @ b # post \<and> scan_base_station a (p # ps) = Inr b \<and>
          cell_at a b = BASE_STATION \<and> (\<forall>r \<in> set (p # pre). cell_at a r \<noteq> BASE_STATION)"
        using False sc by simp
      then show ?thesis by blast
    qed
  qed
qed

lemma valid_not_sentinel:
  "POSITION_IS_VALID p w h \<Longrightarrow> pos_x p \<noteq> 0xFFFFFFFF \<and> pos_y p \<noteq> 0xFFFFFFFF"
  using undef_not_less [of w] undef_not_less [of h]
  by (auto simp: POSITION_IS_VALID_def COST_UNDEF_def)

lemma base_station_cost_zero:
  assumes "map_ok m" and "POSITION_IS_VALID p (width m) (height m)"
    and "cell_at (soils m) p = BASE_STATION"
    and "compute_cell_cost m p queue = Inr (v, m', queue')"
  shows "v = 0"
  using compute_cell_cost_value [OF assms(1,2,4)] assms(3) by (simp add: cell_value_def)

lemma get_base_station_pos_cases:
  assumes "map_ok m"
  shows "(get_base_station_pos m = Inr \<lparr>pos_x = 0xFFFFFFFF, pos_y = 0xFFFFFFFF\<rparr> \<and>
            (\<forall>p \<in> set (row_major (width m) (height m)). cell_at (soils m) p \<noteq> BASE_STATION)) \<or>
         (\<exists>pre b post. row_major (width m) (height m) = pre @ b # post \<and>
            get_base_station_pos m = Inr b \<and> cell_at (soils m) b = BASE_STATION \<and>
            (\<forall>r \<in> set pre. cell_at (soils m) r \<noteq> BASE_STATION))"
proof -
  have "grid_ok (width m) (height m) (soils m)"
    using assms by (simp add: map_ok_def)
  moreover have "\<forall>p \<in> set (row_major (width m) (height m)). POSITION_IS_VALID p (width m) (height m)"
    by (simp add: row_major_set)
  ultimately show ?thesis
    unfolding get_base_station_pos_def by (rule scan_base_station_split)
qed

lemma length_enqueued: "queue_ok q \<Longrightarrow> length (enqueued q) = nat (q_last q)"
proof -
  assume "queue_ok q"
  then have "nat (q_last q) \<le> length (q_values q)"
    by (simp add: queue_ok_def nat_mono)
  then show ?thesis by (simp add: enqueued_def)
qed

lemma enqueue_ok:
  assumes "queue_ok q" and "q_last q < q_size q"
  shows "\<exists>q'. enqueue q v = Inr q' \<and> queue_ok q' \<and> enqueued q' = enqueued q @ [v] \<and>
           q_first q' = q_first q \<and> q_size q' = q_size q \<and> q_last q' = q_last q + 1"
proof -
  have b: "0 \<le> q_last q" "q_last q mod q_size q = q_last q" "nat (q_last q) < length (q_values q)"
    using assms by (simp_all add: queue_ok_def)
  have "take (nat (q_last q + 1)) ((q_values q)[nat (q_last q) := v]) =
        take (nat (q_last q)) (q_values q) @ [v]"
    using b by (simp add: nat_add_distrib take_Suc_conv_app_nth)
  then show ?thesis
    using assms b by (simp add: enqueue_def queue_ok_def enqueued_def)
qed

lemma enqueue_all_ok:
  assumes "queue_ok q" and "q_last q + int (length ns) \<le> q_size q"
  shows "\<exists>q'. enqueue_all q ns = Inr q' \<and> queue_ok q' \<and> enqueued q' = enqueued q @ ns \<and>
           q_first q' = q_first q \<and> q_size q' = q_size q \<and>
           q_last q' = q_last q + int (length ns)"
  using assms
proof (induction ns arbitrary: q)
  case Nil
  then show ?case by simp
next
  case (Cons n ns)
  from Cons.prems have "q_last q < q_size q" by simp
  from enqueue_ok [OF Cons.prems(1) this, of n] obtain q1 where
    q1: "enqueue q n = Inr q1" "queue_ok q1" "enqueued q1 = enqueued q @ [n]"
    "q_first q1 = q_first q" "q_size q1 = q_size q" "q_last q1 = q_last q + 1"
    by blast
  have "q_last q1 + int (length ns) \<le> q_size q1"
    using q1 Cons.prems(2) by simp
  from Cons.IH [OF q1(2) this] obtain q' where
    "enqueue_all q1 ns = Inr q'" "queue_ok q'" "enqueued q' = enqueued q1 @ ns"
    "q_first q' = q_first q1" "q_size q' = q_size q1" "q_last q' = q_last q1 + int (length ns)"
    by blast
  then show ?case
    using q1 by simp
qed

lemma dequeue_ok:
  assumes "queue_ok q" and "q_first q \<noteq> q_last q"
  shows "dequeue q = Inr (enqueued q ! nat (q_first q), q\<lparr>q_first := q_first q + 1\<rparr>) \<and>
         queue_ok (q\<lparr>q_first := q_first q + 1\<rparr>) \<and>
         enqueued (q\<lparr>q_first := q_first q + 1\<rparr>) = enqueued q \<and>
         nat (q_first q) < length (enqueued q)"
proof -
  have b: "0 \<le> q_first q" "q_first q < q_last q" "q_first q < q_size q"
    using assms by (simp_all add: queue_ok_def)
  then have "q_first q mod q_size q = q_first q" by simp
  then show ?thesis
    using assms b by (simp add: dequeue_def queue_ok_def enqueued_def)
qed

lemma length_row_major: "length (row_major w h) = unat w * unat h"
  by (simp add: row_major_def length_concat comp_def sum_list_triv)

lemma valid_list_length:
  assumes "distinct ps" and "\<forall>p \<in> set ps. POSITION_IS_VALID p w h"
  shows "length ps \<le> cell_count w h"
proof -
  have "set ps \<subseteq> set (row_major w h)"
    using assms(2) by (auto simp: row_major_set)
  then have "card (set ps) \<le> card (set (row_major w h))"
    by (simp add: card_mono)
  also have "\<dots> \<le> length (row_major w h)"
    by (rule card_length)
  finally show ?thesis
    using assms(1) by (simp add: distinct_card length_row_major cell_count_def)
qed

lemma neighbours_distinct: "distinct (neighbours w h p)"
  unfolding neighbours_def neighbours_in_def
  using neighbour_pos_distinct by (rule distinct_filter)

lemma neighbours_valid: "n \<in> set (neighbours w h p) \<Longrightarrow> POSITION_IS_VALID n w h"
  by (simp add: neighbours_def neighbours_in_def)

lemma neighbours_irrefl: "n \<in> set (neighbours w h p) \<Longrightarrow> n \<noteq> p"
proof -
  assume "n \<in> set (neighbours w h p)"
  then obtain d where "d \<in> set direction_vectors" "n = neighbour_pos p d"
    by (auto simp: neighbours_def neighbours_in_def)
  then show ?thesis
    by (auto simp: direction_vectors_def neighbour_pos_def position_eq_iff)
qed

lemma neighbours_sym:
  assumes "POSITION_IS_VALID p w h" and "n \<in> set (neighbours w h p)"
  shows "p \<in> set (neighbours w h n)"
proof -
  from assms(2) obtain d where d: "d \<in> set direction_vectors" "n = neighbour_pos p d"
    by (auto simp: neighbours_def neighbours_in_def)
  then have "(- fst d, - snd d) \<in> set direction_vectors"
    by (auto simp: direction_vectors_def)
  moreover have "neighbour_pos n (- fst d, - snd d) = p"
    using d(2) by (simp add: neighbour_pos_def)
  ultimately show ?thesis
    using assms(1) by (force simp: neighbours_def neighbours_in_def)
qed

lemma cell_at_mark_all:
  assumes "grid_ok w h cs" and "\<forall>n \<in> set ns. POSITION_IS_VALID n w h" and "POSITION_IS_VALID r w h"
  shows "cell_at (mark_all cs ns) r = (if r \<in> set ns then COST_UNDEF - 1 else cell_at cs r)"
  using assms(1,2)
proof (induction ns arbitrary: cs)
  case Nil
  then show ?case by (simp add: mark_all_def)
next
  case (Cons n ns)
  have n: "POSITION_IS_VALID n w h" using Cons.prems(2) by simp
  have "mark_all cs (n # ns) = mark_all (grid_upd cs n (COST_UNDEF - 1)) ns"
    by (simp add: mark_all_def)
  moreover have "cell_at (mark_all (grid_upd cs n (COST_UNDEF - 1)) ns) r =
      (if r \<in> set ns then COST_UNDEF - 1 else cell_at (grid_upd cs n (COST_UNDEF - 1)) r)"
    using Cons.prems by (intro Cons.IH grid_ok_upd) simp_all
  ultimately show ?case
    using cell_at_upd [OF Cons.prems(1) n assms(3), of "COST_UNDEF - 1"]
    by (cases "r = n") simp_all
qed

lemma cost_min_from_le_init: "cost_min_from cs ns c0 \<le> c0"
proof (induction ns arbitrary: c0)
  case Nil
  then show ?case by (simp add: cost_min_from_def)
next
  case (Cons n ns)
  have "cost_min_from cs (n # ns) c0 = cost_min_from cs ns (min (cell_at cs n) c0)"
    by (simp add: cost_min_from_def)
  also have "\<dots> \<le> min (cell_at cs n) c0" by (rule Cons.IH)
  finally show ?case by simp
qed

lemma cost_min_from_le: "n \<in> set ns \<Longrightarrow> cost_min_from cs ns c0 \<le> cell_at cs n"
proof (induction ns arbitrary: c0)
  case Nil
  then show ?case by simp
next
  case (Cons a ns)
  have e: "cost_min_from cs (a # ns) c0 = cost_min_from cs ns (min (cell_at cs a) c0)"
    by (simp add: cost_min_from_def)
  show ?case
  proof (cases "n = a")
    case True
    have "cost_min_from cs ns (min (cell_at cs a) c0) \<le> min (cell_at cs a) c0"
      by (rule cost_min_from_le_init)
    then show ?thesis using True e by simp
  next
    case False
    then show ?thesis using Cons e by simp
  qed
qed

lemma cost_min_from_mem:
  "cost_min_from cs ns c0 = c0 \<or> (\<exists>n \<in> set ns. cost_min_from cs ns c0 = cell_at cs n)"
proof (induction ns arbitrary: c0)
  case Nil
  then show ?case by (simp add: cost_min_from_def)
next
  case (Cons a ns)
  have e: "cost_min_from cs (a # ns) c0 = cost_min_from cs ns (min (cell_at cs a) c0)"
    by (simp add: cost_min_from_def)
  from Cons.IH [of "min (cell_at cs a) c0"] show ?case
    unfolding e by (auto simp: min_def split: if_splits)
qed

lemma soil_cost_le: "unat (soil_cost s) \<le> 10000"
  by (cases s) simp_all

lemma grid_small_cells: "cell_count w h \<le> 429496 \<Longrightarrow> grid_small 10000 w h"
  by (simp add: grid_small_def)

lemma loop_body_inv:
  assumes small: "grid_small cap (width m0) (height m0)"
    and inv: "bfs_inv cap m0 b m q" and ne: "q_first q \<noteq> q_last q"
    and c: "c = enqueued q ! nat (q_first q)"
    and new: "new = fresh_in (costs m) (neighbours (width m0) (height m0) c)"
  shows "\<exists>m' q'. loop_body m q = Inr (m', q') \<and> bfs_inv cap m0 b m' q' \<and>
           q_first q' = q_first q + 1 \<and> enqueued q' = enqueued q @ new \<and>
           (\<forall>n \<in> set new. cell_at (costs m) n = COST_UNDEF \<and>
                           cell_at (costs m') n = COST_UNDEF - 1) \<and>
           (\<forall>r. POSITION_IS_VALID r (width m0) (height m0) \<longrightarrow>
                cell_at (costs m') r =
                  (if r = c then cell_value m c
                   else if r \<in> set new then COST_UNDEF - 1 else cell_at (costs m) r))"
proof -
  let ?w = "width m0" and ?h = "height m0" and ?E = "enqueued q"
  define k where "k = nat (q_first q)"
  define q1 where "q1 = q\<lparr>q_first := q_first q + 1\<rparr>"
  from inv have ok: "map_ok m" and sh: "same_shape m0 m" and qok: "queue_ok q"
    and sz: "q_size q = int (cell_count ?w ?h)" and dist: "distinct ?E"
    and val: "\<forall>p \<in> set ?E. POSITION_IS_VALID p ?w ?h"
    and nonempty: "?E \<noteq> []" and hd: "hd ?E = b" and base: "cell_at (soils m0) b = BASE_STATION"
    and untouched: "\<forall>p. POSITION_IS_VALID p ?w ?h \<longrightarrow> p \<notin> set ?E \<longrightarrow> cell_at (costs m) p = COST_UNDEF"
    and pend: "\<forall>p \<in> set (pending q). awaiting m q b p"
    and sett: "\<forall>p \<in> set (settled q). unat (cell_at (costs m) p) \<le> cap * nat (q_first q)"
    and zero: "0 < q_first q \<longrightarrow> cell_at (costs m) b = 0"
    and capped: "\<forall>p. POSITION_IS_VALID p ?w ?h \<longrightarrow> unat (soil_cost (cell_at (soils m0) p)) \<le> cap"
    by (simp_all add: bfs_inv_def)
  have dims: "width m = ?w" "height m = ?h" "soils m = soils m0"
    using sh by (simp_all add: same_shape_def)
  have okc: "grid_ok ?w ?h (costs m)"
    using ok dims by (simp add: map_ok_def)
  have first0: "0 \<le> q_first q"
    using qok by (simp add: queue_ok_def)
  from dequeue_ok [OF qok ne] have deq: "dequeue q = Inr (?E ! k, q1)" and qok1: "queue_ok q1"
    and enq1: "enqueued q1 = ?E" and klt: "k < length ?E"
    by (simp_all add: k_def q1_def)
  have c_def: "c = ?E ! k"
    using c by (simp add: k_def)
  have cE: "c \<in> set ?E"
    using klt by (simp add: c_def)
  have cvalid: "POSITION_IS_VALID c ?w ?h"
    using cE val by blast
  have pend_split: "pending q = c # drop (Suc k) ?E"
    using klt by (simp add: pending_def k_def [symmetric] c_def Cons_nth_drop_Suc)
  have sett_eq: "settled q = take k ?E"
    by (simp add: settled_def k_def)
  have E_split: "set ?E = set (settled q) \<union> set (pending q)"
    using set_append [of "take k ?E" "drop k ?E"] by (simp add: settled_def pending_def k_def)
  have lenE: "length ?E \<le> cell_count ?w ?h"
    using dist val by (rule valid_list_length)
  have kstep: "cap * (k + 1) = cap * k + cap"
    by simp
  have "cap * (k + 1) \<le> cap * cell_count ?w ?h"
    using klt lenE by (intro mult_le_mono2) simp
  then have kbound: "cap * k + cap \<le> 4294960000"
    using small unfolding kstep by (simp add: grid_small_def)
  have sett_small: "cell_at (costs m) p \<noteq> COST_UNDEF \<and> cell_at (costs m) p \<noteq> COST_UNDEF - 1"
    if "p \<in> set (settled q)" for p
  proof -
    have "unat (cell_at (costs m) p) \<le> cap * k"
      using sett that by (simp add: k_def)
    then have "unat (cell_at (costs m) p) < 4294967294"
      using kbound by simp
    then show ?thesis
      by (auto simp: COST_UNDEF_def)
  qed
  note new_def = new
  have new_nb: "set new \<subseteq> set (neighbours ?w ?h c)"
    by (auto simp: new_def fresh_in_def)
  have new_valid: "\<forall>n \<in> set new. POSITION_IS_VALID n ?w ?h"
    using new_nb neighbours_valid by blast
  have new_undef: "\<forall>n \<in> set new. cell_at (costs m) n = COST_UNDEF"
    by (simp add: new_def fresh_in_def)
  have new_dist: "distinct new"
    unfolding new_def fresh_in_def using neighbours_distinct by (rule distinct_filter)
  have new_notc: "c \<notin> set new"
    using new_nb neighbours_irrefl by blast
  have new_disj: "n \<notin> set ?E" if "n \<in> set new" for n
  proof
    assume "n \<in> set ?E"
    then consider "n \<in> set (settled q)" | "n \<in> set (pending q)"
      using E_split by blast
    then show False
    proof cases
      case 1
      then show False using sett_small new_undef that by blast
    next
      case 2
      then have "awaiting m q b n" using pend by blast
      then have "q_first q = 0" "n = b"
        using new_undef that by (auto simp: awaiting_def COST_UNDEF_def)
      then have "n = c"
        using hd nonempty by (simp add: c_def k_def hd_conv_nth)
      then show False using new_notc that by simp
    qed
  qed
  have dist': "distinct (?E @ new)"
    using dist new_dist new_disj by auto
  have val': "\<forall>p \<in> set (?E @ new). POSITION_IS_VALID p ?w ?h"
    using val new_valid by auto
  have len': "length (?E @ new) \<le> cell_count ?w ?h"
    using dist' val' by (rule valid_list_length)
  have last1: "q_last q1 = int (length ?E)" "q_size q1 = q_size q" "q_first q1 = q_first q + 1"
    using qok length_enqueued [OF qok] by (simp_all add: q1_def queue_ok_def)
  have "int (length (?E @ new)) \<le> int (cell_count ?w ?h)"
    using len' by (simp only: of_nat_le_iff)
  then have "q_last q1 + int (length new) \<le> q_size q1"
    unfolding last1 sz by (simp only: length_append of_nat_add)
  from enqueue_all_ok [OF qok1 this] obtain q' where
    ea: "enqueue_all q1 new = Inr q'" and qok': "queue_ok q'"
    and enq0: "enqueued q' = enqueued q1 @ new"
    and first0': "q_first q' = q_first q1" and size0: "q_size q' = q_size q1"
    by blast
  have enq': "enqueued q' = ?E @ new" and first': "q_first q' = q_first q + 1"
    and size': "q_size q' = q_size q"
    using enq0 first0' size0 enq1 last1 by simp_all
  define v where "v = cell_value m c"
  define m' where "m' = m\<lparr>costs := grid_upd (mark_all (costs m) new) c v\<rparr>"
  have cvalid_m: "POSITION_IS_VALID c (width m) (height m)"
    using cvalid dims by simp
  have ccc: "compute_cell_cost m c (Some q1) =
      Inr (v, m\<lparr>costs := mark_all (costs m) new\<rparr>, Some q')"
    using compute_cell_cost_Some [OF ok cvalid_m, of q1] ea
    by (simp add: dims new_def v_def)
  have okmark: "grid_ok ?w ?h (mark_all (costs m) new)"
    using okc by (rule grid_ok_mark_all)
  have lb: "loop_body m q = Inr (m', q')"
    unfolding loop_body_def deq c_def [symmetric]
    by (simp add: ccc cell_set_valid [OF okmark cvalid] m'_def)
  have cost': "cell_at (costs m') r =
      (if r = c then v else if r \<in> set new then COST_UNDEF - 1 else cell_at (costs m) r)"
    if "POSITION_IS_VALID r ?w ?h" for r
    using cell_at_upd [OF okmark cvalid that] cell_at_mark_all [OF okc new_valid that]
    by (simp add: m'_def)
  have c_base: "k = 0 \<Longrightarrow> c = b"
    using hd nonempty by (simp add: c_def hd_conv_nth)
  have v_zero: "v = 0" if "cell_at (soils m0) c = BASE_STATION"
    using that by (simp add: v_def cell_value_def dims)
  have vbound: "unat v \<le> cap * k + cap"
  proof (cases "cell_at (soils m0) c = BASE_STATION")
    case True
    then show ?thesis using v_zero by simp
  next
    case False
    have "c \<in> set (pending q)" by (simp add: pend_split)
    then have "awaiting m q b c" using pend by blast
    then obtain n where n: "n \<in> set (neighbours ?w ?h c)" "n \<in> set (settled q)"
      using False base by (auto simp: awaiting_def dims)
    let ?cmin = "cost_min_from (costs m) (neighbours ?w ?h c) 0xFFFFFFFF"
    let ?t = "soil_cost (cell_at (soils m0) c)"
    have "?cmin \<le> cell_at (costs m) n"
      using n(1) by (rule cost_min_from_le)
    then have "unat ?cmin \<le> unat (cell_at (costs m) n)"
      by (simp add: word_le_nat_alt)
    also have "\<dots> \<le> cap * k"
      using sett n(2) by (simp add: k_def)
    finally have cm: "unat ?cmin \<le> cap * k" .
    have t: "unat ?t \<le> cap" using capped cvalid by blast
    have "unat ?cmin + unat ?t < 2 ^ LENGTH(32)"
      using cm t kbound by simp
    then have "unat (?cmin + ?t) = unat ?cmin + unat ?t"
      by (simp only: unat_add_lem [THEN iffD1])
    moreover have "v = ?cmin + ?t"
      using False by (cases "cell_at (soils m0) c") (simp_all add: v_def cell_value_def dims)
    ultimately show ?thesis using cm t by simp
  qed
  have k': "nat (q_first q') = Suc k"
    using first' first0 by (simp add: k_def nat_add_distrib)
  have sett': "settled q' = take k ?E @ [c]"
    using klt by (simp add: settled_def k' enq' take_Suc_conv_app_nth c_def)
  have pend': "pending q' = drop (Suc k) ?E @ new"
    using klt by (simp add: pending_def k' enq')
  have rest_notc: "p \<noteq> c" if "p \<in> set (drop (Suc k) ?E)" for p
    using that dist pend_split E_split distinct_take distinct_drop
    by (metis append_take_drop_id distinct.simps(2) distinct_append pending_def k_def)
  have old_notc: "p \<noteq> c" if "p \<in> set (take k ?E)" for p
  proof -
    have "distinct (take k ?E @ c # drop (Suc k) ?E)"
      using dist klt by (simp add: c_def Cons_nth_drop_Suc)
    then show ?thesis using that by auto
  qed
  have i1: "map_ok m'"
    using ok okmark dims by (simp add: m'_def map_ok_def grid_ok_upd)
  have i2: "same_shape m0 m'"
    using sh by (simp add: m'_def same_shape_def)
  have i4: "q_size q' = int (cell_count ?w ?h)"
    using size' sz by simp
  have i7: "enqueued q' \<noteq> [] \<and> hd (enqueued q') = b"
    using nonempty hd by (simp add: enq')
  have i10: "cell_at (costs m') p = COST_UNDEF"
    if "POSITION_IS_VALID p ?w ?h" "p \<notin> set (enqueued q')" for p
  proof -
    have "p \<noteq> c" "p \<notin> set new" "p \<notin> set ?E"
      using that(2) cE by (auto simp: enq')
    then show ?thesis
      using cost' [OF that(1)] untouched that(1) by simp
  qed
  have i11: "awaiting m' q' b p" if "p \<in> set (pending q')" for p
  proof -
    from that consider "p \<in> set (drop (Suc k) ?E)" | "p \<in> set new"
      by (auto simp: pend')
    then show ?thesis
    proof cases
      case 1
      then have pc: "p \<noteq> c" by (rule rest_notc)
      have pE: "p \<in> set ?E" using 1 by (rule in_set_dropD)
      then have pn: "p \<notin> set new" using new_disj by blast
      have pv: "POSITION_IS_VALID p ?w ?h" using pE val by blast
      have same: "cell_at (costs m') p = cell_at (costs m) p"
        using cost' [OF pv] pc pn by simp
      have "p \<in> set (pending q)" using 1 by (simp add: pend_split)
      then have "awaiting m q b p" using pend by blast
      moreover have "\<not> (q_first q = 0 \<and> p = b)"
        using pc c_base by (auto simp: k_def)
      ultimately have "cell_at (costs m) p = COST_UNDEF - 1 \<and>
          (\<exists>n \<in> set (neighbours (width m) (height m) p). n \<in> set (settled q))"
        unfolding awaiting_def by blast
      then obtain n where a: "cell_at (costs m) p = COST_UNDEF - 1"
        and n: "n \<in> set (neighbours ?w ?h p)" "n \<in> set (take k ?E)"
        unfolding dims sett_eq by blast
      have wh': "width m' = ?w" "height m' = ?h"
        using dims by (simp_all add: m'_def)
      have "n \<in> set (settled q')"
        using n(2) by (simp add: sett')
      then have "\<exists>n \<in> set (neighbours (width m') (height m') p). n \<in> set (settled q')"
        unfolding wh' using n(1) by blast
      moreover have "cell_at (costs m') p = COST_UNDEF - 1"
        using same a by simp
      ultimately show ?thesis
        unfolding awaiting_def by blast
    next
      case 2
      then have pv: "POSITION_IS_VALID p ?w ?h" using new_valid by blast
      have pc: "p \<noteq> c" using 2 new_notc by blast
      have "cell_at (costs m') p = COST_UNDEF - 1"
        using cost' [OF pv] pc 2 by simp
      moreover have "p \<in> set (neighbours ?w ?h c)"
        using new_nb 2 by blast
      then have "c \<in> set (neighbours ?w ?h p)"
        by (rule neighbours_sym [OF cvalid])
      moreover have wh': "width m' = ?w" "height m' = ?h"
        using dims by (simp_all add: m'_def)
      moreover have "c \<in> set (settled q')"
        by (simp add: sett')
      ultimately have "cell_at (costs m') p = COST_UNDEF - 1 \<and>
          (\<exists>n \<in> set (neighbours (width m') (height m') p). n \<in> set (settled q'))"
        by metis
      then show ?thesis
        unfolding awaiting_def by blast
    qed
  qed
  have i12: "unat (cell_at (costs m') p) \<le> cap * nat (q_first q')" if "p \<in> set (settled q')" for p
  proof -
    from that consider "p \<in> set (take k ?E)" | "p = c"
      by (auto simp: sett')
    then show ?thesis
    proof cases
      case 1
      then have pc: "p \<noteq> c" by (rule old_notc)
      have pE: "p \<in> set ?E" using 1 by (rule in_set_takeD)
      then have pn: "p \<notin> set new" using new_disj by blast
      have pv: "POSITION_IS_VALID p ?w ?h" using pE val by blast
      have "cell_at (costs m') p = cell_at (costs m) p"
        using cost' [OF pv] pc pn by simp
      moreover have "unat (cell_at (costs m) p) \<le> cap * k"
        using sett 1 by (simp add: sett_eq k_def)
      ultimately show ?thesis by (simp add: k')
    next
      case 2
      then show ?thesis
        using cost' [OF cvalid] vbound by (simp add: k')
    qed
  qed
  have i13: "cell_at (costs m') b = 0"
  proof (cases "k = 0")
    case True
    then have "c = b" by (rule c_base)
    then show ?thesis
      using cost' [OF cvalid] v_zero base by simp
  next
    case False
    then have "0 < q_first q" by (simp add: k_def)
    then have z: "cell_at (costs m) b = 0" using zero by simp
    have "b \<in> set (take k ?E)"
      using False nonempty hd by (metis hd_in_set hd_take take_eq_Nil neq0_conv)
    then have bc: "b \<noteq> c" and bE: "b \<in> set ?E"
      using old_notc in_set_takeD by fast+
    then have "b \<notin> set new" using new_disj by blast
    moreover have "POSITION_IS_VALID b ?w ?h" using bE val by blast
    ultimately show ?thesis
      using cost' [of b] bc z by simp
  qed
  have inv': "bfs_inv cap m0 b m' q'"
    unfolding bfs_inv_def
    using i1 i2 qok' i4 dist' val' i7 base i10 i11 i12 i13 capped by (simp add: enq')
  have "\<forall>n \<in> set new. cell_at (costs m) n = COST_UNDEF \<and> cell_at (costs m') n = COST_UNDEF - 1"
    using new_undef new_valid new_notc cost' by auto
  moreover have "\<forall>r. POSITION_IS_VALID r ?w ?h \<longrightarrow> cell_at (costs m') r =
      (if r = c then cell_value m c else if r \<in> set new then COST_UNDEF - 1 else cell_at (costs m) r)"
    using cost' by (simp add: v_def)
  ultimately show ?thesis
    using lb inv' first' enq' by blast
qed

lemma queue_size_small:
  assumes "grid_small cap w h"
  shows "sint (w * h) = int (cell_count w h)"
proof -
  have b: "unat w * unat h < 2147483648"
    using assms by (simp add: grid_small_def cell_count_def)
  then have "unat w * unat h < 2 ^ LENGTH(32)" by simp
  then have u: "unat (w * h) = unat w * unat h"
    by (simp only: unat_mult_lem [THEN iffD1])
  define c where "c = int (unat (w * h))"
  have c: "0 \<le> c" "c < 2147483648"
    using b unfolding c_def u by (simp_all only: of_nat_0_le_iff of_nat_less_iff [symmetric, of _ 2147483648] of_nat_numeral)
  have "sint (w * h) = signed_take_bit (LENGTH(32) - Suc 0) (uint (w * h))"
    by (rule sint_uint)
  also have "uint (w * h) = c"
    by (simp add: c_def)
  also have "signed_take_bit (LENGTH(32) - Suc 0) c = c"
    using c by (intro signed_take_bit_int_eq_self) simp_all
  finally show ?thesis
    by (simp only: c_def u cell_count_def)
qed

lemma initial_queue_ok:
  assumes "grid_small cap (width m) (height m)" and "POSITION_IS_VALID b (width m) (height m)"
  shows "\<exists>q. enqueue (initial_queue m) b = Inr q \<and> queue_ok q \<and> enqueued q = [b] \<and>
           q_first q = 0 \<and> q_last q = 1 \<and> q_size q = int (cell_count (width m) (height m))"
proof -
  let ?n = "int (cell_count (width m) (height m))"
  have iq: "initial_queue m = createQueue ?n"
    using assms(1) by (simp add: initial_queue_def queue_size_small)
  have "0 < unat (width m)" "0 < unat (height m)"
    using assms(2) by (auto simp: valid_unat)
  then have pos: "0 < cell_count (width m) (height m)"
    by (simp add: cell_count_def)
  have ok: "queue_ok (createQueue ?n)"
    by (simp add: queue_ok_def createQueue_def)
  have "q_last (createQueue ?n) < q_size (createQueue ?n)"
    using pos by (simp add: createQueue_def)
  from enqueue_ok [OF ok this, of b] show ?thesis
    unfolding iq by (auto simp: enqueued_def createQueue_def)
qed

lemma bfs_inv_initial:
  assumes "map_ok m" and "all_undef m" and "POSITION_IS_VALID b (width m) (height m)"
    and "cell_at (soils m) b = BASE_STATION"
    and "queue_ok q" and "enqueued q = [b]" and "q_first q = 0"
    and "q_size q = int (cell_count (width m) (height m))"
    and "\<forall>p. POSITION_IS_VALID p (width m) (height m) \<longrightarrow> unat (soil_cost (cell_at (soils m) p)) \<le> cap"
  shows "bfs_inv cap m b m q"
proof -
  have "pending q = [b]" "settled q = []"
    using assms(6,7) by (simp_all add: pending_def settled_def)
  moreover have "cell_at (costs m) b = COST_UNDEF"
    using assms(2,3) by (simp add: all_undef_def)
  ultimately show ?thesis
    using assms by (simp add: bfs_inv_def same_shape_refl awaiting_def all_undef_def)
qed

lemma loop_iterate_inv:
  assumes "grid_small cap (width m0) (height m0)"
  shows "bfs_inv cap m0 b m q \<Longrightarrow>
     \<exists>m' q' new. loop_iterate n m q = Inr (m', q') \<and> bfs_inv cap m0 b m' q' \<and>
        enqueued q' = enqueued q @ new \<and> q_first q' \<le> q_first q + int n"
proof (induction n arbitrary: m q)
  case 0
  then show ?case by simp
next
  case (Suc n)
  show ?case
  proof (cases "q_first q \<noteq> q_last q")
    case False
    then show ?thesis using Suc.prems by simp
  next
    case True
    from loop_body_inv [OF assms Suc.prems True refl refl] obtain m1 q1 new1 where
      s: "loop_body m q = Inr (m1, q1)" "bfs_inv cap m0 b m1 q1" "q_first q1 = q_first q + 1"
      "enqueued q1 = enqueued q @ new1"
      by blast
    from Suc.IH [OF s(2)] obtain m' q' new where
      r: "loop_iterate n m1 q1 = Inr (m', q')" "bfs_inv cap m0 b m' q'"
      "enqueued q' = enqueued q1 @ new" "q_first q' \<le> q_first q1 + int n"
      by blast
    have "loop_iterate (Suc n) m q = Inr (m', q')"
      using True s(1) r(1) by simp
    moreover have "enqueued q' = enqueued q @ (new1 @ new)"
      using s(4) r(3) by simp
    moreover have "q_first q' \<le> q_first q + int (Suc n)"
      using s(3) r(4) by simp
    ultimately show ?thesis using r(2) by blast
  qed
qed

lemma bfs_inv_first_bound:
  assumes "bfs_inv cap m0 b m q"
  shows "0 \<le> q_first q \<and> q_first q \<le> q_last q \<and>
         q_last q \<le> int (cell_count (width m0) (height m0))"
  using assms by (simp add: bfs_inv_def queue_ok_def)

lemma loop_iterate_terminates:
  assumes "grid_small cap (width m0) (height m0)"
  shows "bfs_inv cap m0 b m q \<Longrightarrow> cell_count (width m0) (height m0) - nat (q_first q) \<le> n \<Longrightarrow>
     \<exists>m' q'. loop_iterate n m q = Inr (m', q') \<and> bfs_inv cap m0 b m' q' \<and> q_first q' = q_last q'"
proof (induction n arbitrary: m q)
  case 0
  then have "q_first q = q_last q"
    using bfs_inv_first_bound [OF "0.prems"(1)] by linarith
  then show ?case using "0.prems" by simp
next
  case (Suc n)
  show ?case
  proof (cases "q_first q \<noteq> q_last q")
    case False
    then show ?thesis using Suc.prems by simp
  next
    case True
    from loop_body_inv [OF assms Suc.prems(1) True refl refl] obtain m1 q1 where
      s: "loop_body m q = Inr (m1, q1)" "bfs_inv cap m0 b m1 q1" "q_first q1 = q_first q + 1"
      by blast
    have "cell_count (width m0) (height m0) - nat (q_first q1) \<le> n"
      using Suc.prems(2) s(3) bfs_inv_first_bound [OF Suc.prems(1)] by arith
    from Suc.IH [OF s(2) this] show ?thesis
      using True s(1) by simp
  qed
qed

lemma loop_iterate_compute_loop:
  "loop_iterate n m q = Inr (m', q') \<Longrightarrow> q_first q' = q_last q' \<Longrightarrow>
   compute_loop m q = Some (Inr m')"
proof (induction n arbitrary: m q)
  case 0
  then show ?case by (simp add: compute_loop.simps)
next
  case (Suc n)
  show ?case
  proof (cases "q_first q \<noteq> q_last q")
    case False
    then show ?thesis using Suc.prems by (simp add: compute_loop.simps)
  next
    case True
    then obtain m1 q1 where s: "loop_body m q = Inr (m1, q1)" "loop_iterate n m1 q1 = Inr (m', q')"
      using Suc.prems(1) by (auto split: sum.splits)
    from Suc.IH [OF s(2) Suc.prems(2)] show ?thesis
      using True s(1) by (subst compute_loop.simps) simp
  qed
qed

lemma compute_loop_iterate_aux:
  assumes "compute_loop m q = Some r"
  shows "\<forall>m'. r = Inr m' \<longrightarrow>
           (\<exists>n q'. loop_iterate n m q = Inr (m', q') \<and> q_first q' = q_last q')"
proof (rule compute_loop.raw_induct [where P = "\<lambda>m q r. \<forall>m'. r = Inr m' \<longrightarrow>
           (\<exists>n q'. loop_iterate n m q = Inr (m', q') \<and> q_first q' = q_last q')", OF _ assms])
  fix f :: "map_s \<Rightarrow> t_queue \<Rightarrow> (error + map_s) option" and m q r
  assume IH: "\<And>m q r. f m q = Some r \<Longrightarrow> \<forall>m'. r = Inr m' \<longrightarrow>
           (\<exists>n q'. loop_iterate n m q = Inr (m', q') \<and> q_first q' = q_last q')"
    and body: "(if q_first q \<noteq> q_last q
      then case loop_body m q of Inl e \<Rightarrow> Some (Inl e) | Inr (m', q') \<Rightarrow> f m' q'
      else Some (Inr m)) = Some r"
  show "\<forall>m'. r = Inr m' \<longrightarrow>
           (\<exists>n q'. loop_iterate n m q = Inr (m', q') \<and> q_first q' = q_last q')"
  proof (intro allI impI)
    fix m' assume r: "r = Inr m'"
    show "\<exists>n q'. loop_iterate n m q = Inr (m', q') \<and> q_first q' = q_last q'"
    proof (cases "q_first q \<noteq> q_last q")
      case False
      then have "m' = m" using body r by simp
      then have "loop_iterate 0 m q = Inr (m', q) \<and> q_first q = q_last q"
        using False by simp
      then show ?thesis by blast
    next
      case True
      then obtain m1 q1 where s: "loop_body m q = Inr (m1, q1)" "f m1 q1 = Some r"
        using body r by (auto split: sum.splits)
      from IH [OF s(2)] r obtain n q' where
        "loop_iterate n m1 q1 = Inr (m', q')" "q_first q' = q_last q'"
        by blast
      then have "loop_iterate (Suc n) m q = Inr (m', q') \<and> q_first q' = q_last q'"
        using True s(1) by simp
      then show ?thesis by blast
    qed
  qed
qed

lemma compute_loop_iterate:
  "compute_loop m q = Some (Inr m') \<Longrightarrow>
   \<exists>n q'. loop_iterate n m q = Inr (m', q') \<and> q_first q' = q_last q'"
  using compute_loop_iterate_aux [of m q "Inr m'"] by blast

lemma map_fill_ok:
  assumes "grid_ok w h a"
  shows "map_ok (map_fill h w a) \<and> all_undef (map_fill h w a)"
proof -
  have "cell_at (replicate (unat h) (replicate (unat w) (0xFFFFFFFF :: u32))) p = COST_UNDEF"
    if "POSITION_IS_VALID p w h" for p
    using that by (simp add: cell_at_def valid_unat COST_UNDEF_def)
  then show ?thesis
    using assms by (simp add: map_ok_def all_undef_def map_fill_def grid_ok_def)
qed

lemma map_fill_fields [simp]:
  "width (map_fill h w a) = w" "height (map_fill h w a) = h" "soils (map_fill h w a) = a"
  by (simp_all add: map_fill_def)

lemma origin_found:
  assumes "map_ok m" and "POSITION_IS_VALID p (width m) (height m)"
    and "cell_at (soils m) p = BASE_STATION"
  shows "\<exists>b. get_base_station_pos m = Inr b \<and> POSITION_IS_VALID b (width m) (height m) \<and>
           cell_at (soils m) b = BASE_STATION \<and>
           compute_costs m =
             (case enqueue (initial_queue m) b of
                Inl e \<Rightarrow> Some (Inl e) | Inr q \<Rightarrow> compute_loop m q)"
proof -
  have "p \<in> set (row_major (width m) (height m))"
    using assms(2) by (simp add: row_major_set)
  with get_base_station_pos_cases [OF assms(1)] assms(3)
  obtain pre b post where b: "row_major (width m) (height m) = pre @ b # post"
    "get_base_station_pos m = Inr b" "cell_at (soils m) b = BASE_STATION"
    by blast
  have "b \<in> set (row_major (width m) (height m))"
    using b(1) by simp
  then have v: "POSITION_IS_VALID b (width m) (height m)"
    by (simp add: row_major_set)
  then have "pos_x b \<noteq> 0xFFFFFFFF \<and> pos_y b \<noteq> 0xFFFFFFFF"
    by (rule valid_not_sentinel)
  then have "compute_costs m =
      (case enqueue (initial_queue m) b of Inl e \<Rightarrow> Some (Inl e) | Inr q \<Rightarrow> compute_loop m q)"
    by (simp add: compute_costs_def b(2))
  then show ?thesis
    using b v by blast
qed

lemma remove_false_costs_keeps:
  assumes "map_ok m" and "POSITION_IS_VALID p (width m) (height m)"
    and "\<not> cell_at (costs m) p > 10000"
  shows "\<exists>m'. remove_false_costs m = Inr m' \<and> map_ok m' \<and> same_shape m m' \<and>
           cell_at (costs m') p = cell_at (costs m) p"
proof -
  let ?ps = "row_major (width m) (height m)"
  have v: "\<forall>p \<in> set ?ps. POSITION_IS_VALID p (width m) (height m)"
    by (simp add: row_major_set)
  from sweep_effect [OF assms(1) row_major_distinct v] obtain m' where
    m': "sweep m ?ps = Inr m'" "map_ok m'" "same_shape m m'"
    and eff: "\<And>i. i < length ?ps \<Longrightarrow> \<exists>mi. sweep m (take i ?ps) = Inr mi \<and> map_ok mi \<and>
             same_shape m mi \<and> cell_at (costs mi) (?ps ! i) = cell_at (costs m) (?ps ! i) \<and>
             cell_at (costs m') (?ps ! i) =
               (if needs_repair mi (?ps ! i) then cell_value mi (?ps ! i)
                else cell_at (costs m) (?ps ! i))"
    by blast
  have "p \<in> set ?ps" using assms(2) by (simp add: row_major_set)
  then obtain i where i: "i < length ?ps" "?ps ! i = p"
    by (auto simp: in_set_conv_nth)
  from eff [OF i(1)] obtain mi where
    "cell_at (costs mi) p = cell_at (costs m) p"
    "cell_at (costs m') p = (if needs_repair mi p then cell_value mi p else cell_at (costs m) p)"
    unfolding i(2) by blast
  then have "cell_at (costs m') p = cell_at (costs m) p"
    using assms(3) by (simp add: needs_repair_def)
  then show ?thesis
    using m' by (simp add: remove_false_costs_def)
qed

lemma cell_get_Some_valid:
  "grid_ok w h a \<Longrightarrow> cell_get a p = Some s \<Longrightarrow> POSITION_IS_VALID p w h"
  by (auto simp: grid_ok_def cell_get_def valid_unat split: if_splits)

lemma loop_body_origin:
  assumes "origin_inv m0 b m q" and "loop_body m q = Inr (m', q')"
  shows "origin_inv m0 b m' q' \<and> cell_at (costs m') b = 0"
proof -
  let ?w = "width m0" and ?h = "height m0"
  from assms(1) have ok: "map_ok m" and sh: "same_shape m0 m" and bv: "POSITION_IS_VALID b ?w ?h"
    and base: "cell_at (soils m0) b = BASE_STATION"
    and head: "cell_at (costs m) b = 0 \<or>
      q_first q \<noteq> q_last q \<and> q_values q ! nat (q_first q mod q_size q) = b"
    by (simp_all add: origin_inv_def)
  have dims: "width m = ?w" "height m = ?h" "soils m = soils m0"
    using sh by (simp_all add: same_shape_def)
  have oks: "grid_ok ?w ?h (soils m)" and okc: "grid_ok ?w ?h (costs m)"
    using ok dims by (simp_all add: map_ok_def)
  define c where "c = q_values q ! nat (q_first q mod q_size q)"
  define q1 where "q1 = q\<lparr>q_first := q_first q + 1\<rparr>"
  have deq: "dequeue q = Inr (c, q1)"
    using assms(2) by (auto simp: loop_body_def dequeue_def c_def q1_def split: if_splits)
  then obtain v m1 q2 cs where
    ccc: "compute_cell_cost m c (Some q1) = Inr (v, m1, Some q2)"
    and set: "cell_set (costs m1) c v = Some cs" and m': "m' = m1\<lparr>costs := cs\<rparr>"
    using assms(2) by (auto simp: loop_body_def split: sum.splits option.splits)
  obtain s where "cell_get (soils m) c = Some s"
    using ccc by (auto simp: compute_cell_cost_def split: option.splits)
  with oks have cv: "POSITION_IS_VALID c ?w ?h"
    by (rule cell_get_Some_valid)
  then have cvm: "POSITION_IS_VALID c (width m) (height m)"
    using dims by simp
  define new where "new = fresh_in (costs m) (neighbours ?w ?h c)"
  have m1: "m1 = m\<lparr>costs := mark_all (costs m) new\<rparr>" and v: "v = cell_value m c"
    using ccc compute_cell_cost_Some [OF ok cvm, of q1]
    by (auto simp: new_def dims split: sum.splits)
  have okmark: "grid_ok ?w ?h (mark_all (costs m) new)"
    using okc by (rule grid_ok_mark_all)
  have cs: "cs = grid_upd (mark_all (costs m) new) c v"
    using set cell_set_valid [OF okmark cv, of v] by (simp add: m1)
  have new_valid: "\<forall>n \<in> set new. POSITION_IS_VALID n ?w ?h"
    using neighbours_valid by (auto simp: new_def fresh_in_def)
  have cost': "cell_at (costs m') b =
      (if b = c then v else if b \<in> set new then COST_UNDEF - 1 else cell_at (costs m) b)"
    using cell_at_upd [OF okmark cv bv] cell_at_mark_all [OF okc new_valid bv]
    by (simp add: m' cs)
  have z: "cell_at (costs m') b = 0"
  proof (cases "b = c")
    case True
    then show ?thesis
      using cost' base by (simp add: v cell_value_def dims)
  next
    case False
    then have "cell_at (costs m) b = 0"
      using head by (auto simp: c_def)
    moreover from this have "b \<notin> set new"
      by (auto simp: new_def fresh_in_def COST_UNDEF_def)
    ultimately show ?thesis
      using cost' False by simp
  qed
  have "map_ok m'"
    using ok okmark dims by (simp add: m' cs m1 map_ok_def grid_ok_upd)
  moreover have "same_shape m0 m'"
    using sh by (simp add: m' m1 same_shape_def)
  ultimately show ?thesis
    using z bv base by (simp add: origin_inv_def)
qed

lemma loop_iterate_origin:
  "origin_inv m0 b m q \<Longrightarrow> loop_iterate n m q = Inr (m', q') \<Longrightarrow> q_first q' = q_last q' \<Longrightarrow>
   map_ok m' \<and> same_shape m0 m' \<and> cell_at (costs m') b = 0"
proof (induction n arbitrary: m q)
  case 0
  then show ?case by (auto simp: origin_inv_def)
next
  case (Suc n)
  show ?case
  proof (cases "q_first q \<noteq> q_last q")
    case False
    then show ?thesis using Suc.prems by (auto simp: origin_inv_def)
  next
    case True
    then obtain m1 q1 where s: "loop_body m q = Inr (m1, q1)" "loop_iterate n m1 q1 = Inr (m', q')"
      using Suc.prems(2) by (auto split: sum.splits)
    from loop_body_origin [OF Suc.prems(1) s(1)] have "origin_inv m0 b m1 q1" ..
    from Suc.IH [OF this s(2) Suc.prems(3)] show ?thesis .
  qed
qed

lemma initial_queue_head:
  assumes "enqueue (initial_queue m) b = Inr q"
  shows "q_first q \<noteq> q_last q \<and> q_values q ! nat (q_first q mod q_size q) = b"
proof -
  define n where "n = sint (width m * height m)"
  have "0 < n"
    using assms by (auto simp: enqueue_def initial_queue_def createQueue_def n_def split: if_splits)
  then have "0 < nat n" by simp
  then show ?thesis
    using assms
    by (auto simp: enqueue_def initial_queue_def createQueue_def n_def [symmetric] split: if_splits)
qed

lemma run_start:
  assumes "grid_ok w h a" and "grid_small cap w h"
    and "POSITION_IS_VALID p w h" and "cell_at a p = BASE_STATION"
    and "\<forall>r. POSITION_IS_VALID r w h \<longrightarrow> unat (soil_cost (cell_at a r)) \<le> cap"
  shows "\<exists>b q0. get_base_station_pos (map_fill h w a) = Inr b \<and>
           POSITION_IS_VALID b w h \<and> cell_at a b = BASE_STATION \<and>
           enqueue (initial_queue (map_fill h w a)) b = Inr q0 \<and> enqueued q0 = [b] \<and>
           q_first q0 = 0 \<and>
           compute_costs (map_fill h w a) = compute_loop (map_fill h w a) q0 \<and>
           bfs_inv cap (map_fill h w a) b (map_fill h w a) q0"
proof -
  let ?m = "map_fill h w a"
  have ok: "map_ok ?m" and undef: "all_undef ?m"
    using map_fill_ok [OF assms(1)] by simp_all
  have small: "grid_small cap (width ?m) (height ?m)"
    using assms(2) by simp
  from origin_found [of ?m p] ok assms(3,4) obtain b where
    b: "get_base_station_pos ?m = Inr b" "POSITION_IS_VALID b w h" "cell_at a b = BASE_STATION"
    "compute_costs ?m =
       (case enqueue (initial_queue ?m) b of Inl e \<Rightarrow> Some (Inl e) | Inr q \<Rightarrow> compute_loop ?m q)"
    by auto
  from initial_queue_ok [OF small, of b] b(2) obtain q0 where
    q0: "enqueue (initial_queue ?m) b = Inr q0" "queue_ok q0" "enqueued q0 = [b]"
    "q_first q0 = 0" "q_size q0 = int (cell_count w h)"
    by auto
  have "bfs_inv cap ?m b ?m q0"
    using ok undef b(2,3) q0 assms(5) by (intro bfs_inv_initial) simp_all
  moreover have "compute_costs ?m = compute_loop ?m q0"
    using b(4) q0(1) by simp
  ultimately show ?thesis
    using b q0 by blast
qed

lemma manhattan_gap:
  "manhattan p r = gap (unat (pos_x p)) (unat (pos_x r)) + gap (unat (pos_y p)) (unat (pos_y r))"
proof -
  have "nat \<bar>int i - int j\<bar> = gap i j" for i j
    unfolding gap_def by arith
  then show ?thesis
    unfolding manhattan_def by (simp only:)
qed

lemma gap_zero: "gap i j = 0 \<longleftrightarrow> i = j"
  unfolding gap_def by arith

lemma gap_step: "i + 1 = k \<or> i = k + 1 \<Longrightarrow> gap i j = gap k j + 1 \<or> gap i j + 1 = gap k j"
  unfolding gap_def by arith

lemma gap_closer: "j < i \<Longrightarrow> k + 1 = i \<Longrightarrow> gap k j + 1 = gap i j"
  unfolding gap_def by arith

lemma gap_closer': "i < j \<Longrightarrow> k = i + 1 \<Longrightarrow> gap k j + 1 = gap i j"
  unfolding gap_def by arith

lemma manhattan_zero: "manhattan p b = 0 \<longleftrightarrow> p = b"
proof -
  have "p = b \<longleftrightarrow> unat (pos_x p) = unat (pos_x b) \<and> unat (pos_y p) = unat (pos_y b)"
    by (simp only: position_eq_iff word_unat_eq_iff)
  then show ?thesis
    unfolding manhattan_gap by (simp add: gap_zero)
qed

lemma neighbour_adjacent_nat:
  assumes "POSITION_IS_VALID p w h" and "n \<in> set (neighbours w h p)"
  shows "unat (pos_x n) + 1 = unat (pos_x p) \<and> unat (pos_y n) = unat (pos_y p) \<or>
         unat (pos_x n) = unat (pos_x p) + 1 \<and> unat (pos_y n) = unat (pos_y p) \<or>
         unat (pos_x n) = unat (pos_x p) \<and> unat (pos_y n) + 1 = unat (pos_y p) \<or>
         unat (pos_x n) = unat (pos_x p) \<and> unat (pos_y n) = unat (pos_y p) + 1"
proof -
  from assms(2) obtain d where d: "d \<in> set direction_vectors" "n = neighbour_pos p d"
    "POSITION_IS_VALID (neighbour_pos p d) w h"
    by (auto simp: neighbours_def neighbours_in_def)
  from neighbour_adjacent [OF assms(1) d(1,3)]
  have xy: "int (unat (pos_x n)) = int (unat (pos_x p)) + fst d"
    "int (unat (pos_y n)) = int (unat (pos_y p)) + snd d"
    unfolding d(2) by blast+
  consider "d = (-1, 0)" | "d = (1, 0)" | "d = (0, -1)" | "d = (0, 1)"
    using d(1) by (auto simp: direction_vectors_def)
  then show ?thesis
  proof cases
    case 1
    show ?thesis using xy unfolding 1 fst_conv snd_conv by arith
  next
    case 2
    show ?thesis using xy unfolding 2 fst_conv snd_conv by arith
  next
    case 3
    show ?thesis using xy unfolding 3 fst_conv snd_conv by arith
  next
    case 4
    show ?thesis using xy unfolding 4 fst_conv snd_conv by arith
  qed
qed

lemma manhattan_neighbour:
  assumes "POSITION_IS_VALID p w h" and "n \<in> set (neighbours w h p)"
  shows "manhattan n b = manhattan p b + 1 \<or> manhattan n b + 1 = manhattan p b"
proof -
  let ?gx = "\<lambda>q. gap (unat (pos_x q)) (unat (pos_x b))"
  let ?gy = "\<lambda>q. gap (unat (pos_y q)) (unat (pos_y b))"
  from neighbour_adjacent_nat [OF assms]
  consider "unat (pos_x n) + 1 = unat (pos_x p) \<or> unat (pos_x n) = unat (pos_x p) + 1"
      "unat (pos_y n) = unat (pos_y p)"
    | "unat (pos_x n) = unat (pos_x p)"
      "unat (pos_y n) + 1 = unat (pos_y p) \<or> unat (pos_y n) = unat (pos_y p) + 1"
    by blast
  then show ?thesis
  proof cases
    case 1
    have "?gx n = ?gx p + 1 \<or> ?gx n + 1 = ?gx p"
      using 1(1) by (rule gap_step)
    then show ?thesis
      unfolding manhattan_gap 1(2) by arith
  next
    case 2
    have "?gy n = ?gy p + 1 \<or> ?gy n + 1 = ?gy p"
      using 2(2) by (rule gap_step)
    then show ?thesis
      unfolding manhattan_gap 2(1) by arith
  qed
qed

lemma manhattan_closer:
  assumes "POSITION_IS_VALID p w h" and "POSITION_IS_VALID b w h" and "p \<noteq> b"
  shows "\<exists>n \<in> set (neighbours w h p). manhattan n b + 1 = manhattan p b"
proof -
  have pb: "unat (pos_x p) < unat w" "unat (pos_y p) < unat h"
    "unat (pos_x b) < unat w" "unat (pos_y b) < unat h"
    using assms(1,2) by (simp_all add: valid_unat)
  have step: "neighbour_pos p d \<in> set (neighbours w h p)"
    if "d \<in> set direction_vectors" "POSITION_IS_VALID (neighbour_pos p d) w h" for d
    using that by (simp add: neighbours_def neighbours_in_def)
  have "\<not> (unat (pos_x p) = unat (pos_x b) \<and> unat (pos_y p) = unat (pos_y b))"
  proof
    assume "unat (pos_x p) = unat (pos_x b) \<and> unat (pos_y p) = unat (pos_y b)"
    then have "pos_x p = pos_x b" "pos_y p = pos_y b"
      by (simp_all only: word_unat_eq_iff [symmetric])
    then show False using assms(3) by (simp add: position_eq_iff)
  qed
  then have "unat (pos_x b) < unat (pos_x p) \<or> unat (pos_x p) < unat (pos_x b) \<or>
      unat (pos_x p) = unat (pos_x b) \<and> unat (pos_y b) < unat (pos_y p) \<or>
      unat (pos_x p) = unat (pos_x b) \<and> unat (pos_y p) < unat (pos_y b)"
    by arith
  then consider "unat (pos_x b) < unat (pos_x p)" | "unat (pos_x p) < unat (pos_x b)"
    | "unat (pos_x p) = unat (pos_x b)" "unat (pos_y b) < unat (pos_y p)"
    | "unat (pos_x p) = unat (pos_x b)" "unat (pos_y p) < unat (pos_y b)"
    by blast
  then show ?thesis
  proof cases
    case 1
    let ?d = "(-1, 0) :: int \<times> int"
    have dd: "?d \<in> set direction_vectors" by (simp add: direction_vectors_def)
    have "pos_x p \<noteq> 0" using 1 by auto
    then have u: "unat (pos_x p - 1) = unat (pos_x p) - 1" by (simp add: unat_minus_one)
    then have v: "POSITION_IS_VALID (neighbour_pos p ?d) w h"
      using pb 1 by (simp add: valid_unat neighbour_pos_def)
    have "unat (pos_x (neighbour_pos p ?d)) + 1 = unat (pos_x p)"
      "unat (pos_y (neighbour_pos p ?d)) = unat (pos_y p)"
      using u 1 by (simp_all add: neighbour_pos_def)
    then have "manhattan (neighbour_pos p ?d) b + 1 = manhattan p b"
      using gap_closer [OF 1, of "unat (pos_x (neighbour_pos p ?d))"]
      unfolding manhattan_gap by simp
    then show ?thesis using step [OF dd v] by blast
  next
    case 2
    let ?d = "(1, 0) :: int \<times> int"
    have dd: "?d \<in> set direction_vectors" by (simp add: direction_vectors_def)
    have "pos_x p < w" using assms(1) by (simp add: POSITION_IS_VALID_def)
    then have u: "unat (pos_x p + 1) = unat (pos_x p) + 1" by (rule unat_succ)
    then have v: "POSITION_IS_VALID (neighbour_pos p ?d) w h"
      using pb 2 by (simp add: valid_unat neighbour_pos_def)
    have "unat (pos_x (neighbour_pos p ?d)) = unat (pos_x p) + 1"
      "unat (pos_y (neighbour_pos p ?d)) = unat (pos_y p)"
      using u by (simp_all add: neighbour_pos_def)
    then have "manhattan (neighbour_pos p ?d) b + 1 = manhattan p b"
      using gap_closer' [OF 2, of "unat (pos_x (neighbour_pos p ?d))"]
      unfolding manhattan_gap by simp
    then show ?thesis using step [OF dd v] by blast
  next
    case 3
    let ?d = "(0, -1) :: int \<times> int"
    have dd: "?d \<in> set direction_vectors" by (simp add: direction_vectors_def)
    have "pos_y p \<noteq> 0" using 3 by auto
    then have u: "unat (pos_y p - 1) = unat (pos_y p) - 1" by (simp add: unat_minus_one)
    then have v: "POSITION_IS_VALID (neighbour_pos p ?d) w h"
      using pb 3 by (simp add: valid_unat neighbour_pos_def)
    have "unat (pos_x (neighbour_pos p ?d)) = unat (pos_x p)"
      "unat (pos_y (neighbour_pos p ?d)) + 1 = unat (pos_y p)"
      using u 3 by (simp_all add: neighbour_pos_def)
    then have "manhattan (neighbour_pos p ?d) b + 1 = manhattan p b"
      using gap_closer [OF 3(2), of "unat (pos_y (neighbour_pos p ?d))"]
      unfolding manhattan_gap by simp
    then show ?thesis using step [OF dd v] by blast
  next
    case 4
    let ?d = "(0, 1) :: int \<times> int"
    have dd: "?d \<in> set direction_vectors" by (simp add: direction_vectors_def)
    have "pos_y p < h" using assms(1) by (simp add: POSITION_IS_VALID_def)
    then have u: "unat (pos_y p + 1) = unat (pos_y p) + 1" by (rule unat_succ)
    then have v: "POSITION_IS_VALID (neighbour_pos p ?d) w h"
      using pb 4 by (simp add: valid_unat neighbour_pos_def)
    have "unat (pos_x (neighbour_pos p ?d)) = unat (pos_x p)"
      "unat (pos_y (neighbour_pos p ?d)) = unat (pos_y p) + 1"
      using u by (simp_all add: neighbour_pos_def)
    then have "manhattan (neighbour_pos p ?d) b + 1 = manhattan p b"
      using gap_closer' [OF 4(2), of "unat (pos_y (neighbour_pos p ?d))"]
      unfolding manhattan_gap by simp
    then show ?thesis using step [OF dd v] by blast
  qed
qed

lemma sorted_wrt_all:
  "(\<And>x y. x \<in> set xs \<Longrightarrow> y \<in> set xs \<Longrightarrow> P x y) \<Longrightarrow> sorted_wrt P xs"
  by (induction xs) auto

lemma sorted_hd_least:
  "sorted_wrt (\<lambda>p r. (f p :: nat) \<le> f r) ys \<Longrightarrow> y \<in> set ys \<Longrightarrow> f (hd ys) \<le> f y"
  by (cases ys) auto

lemma cost_min_exact:
  assumes "n \<in> set ns" and "unat (cell_at cs n) = d"
    and "\<And>r. r \<in> set ns \<Longrightarrow> d \<le> unat (cell_at cs r)"
  shows "unat (cost_min_from cs ns 0xFFFFFFFF) = d"
proof -
  let ?c = "cost_min_from cs ns 0xFFFFFFFF"
  have "?c \<le> cell_at cs n" using assms(1) by (rule cost_min_from_le)
  then have le: "unat ?c \<le> d"
    using assms(2) by (simp add: word_le_nat_alt)
  from cost_min_from_mem [of cs ns "0xFFFFFFFF"] have "d \<le> unat ?c"
  proof
    assume "?c = 0xFFFFFFFF"
    moreover have "unat (cell_at cs n) \<le> unat (0xFFFFFFFF :: u32)"
      using undef_not_less [of "cell_at cs n"]
      by (simp only: COST_UNDEF_def word_less_nat_alt not_less)
    ultimately show ?thesis using assms(2) by simp
  next
    assume "\<exists>r \<in> set ns. ?c = cell_at cs r"
    then show ?thesis using assms(3) by auto
  qed
  with le show ?thesis by simp
qed

lemma bfs_inv_settled_bound:
  assumes "grid_small cap (width m0) (height m0)" and "bfs_inv cap m0 b m q" and "p \<in> set (settled q)"
  shows "unat (cell_at (costs m) p) \<le> 4294960000"
proof -
  have "unat (cell_at (costs m) p) \<le> cap * nat (q_first q)"
    using assms(2,3) by (simp add: bfs_inv_def)
  moreover have "nat (q_first q) \<le> cell_count (width m0) (height m0)"
    using bfs_inv_first_bound [OF assms(2)] by linarith
  then have "cap * nat (q_first q) \<le> cap * cell_count (width m0) (height m0)"
    by (rule mult_le_mono2)
  moreover have "cap * cell_count (width m0) (height m0) \<le> 4294960000"
    using assms(1) by (simp add: grid_small_def)
  ultimately show ?thesis
    by (rule le_trans [OF le_trans])
qed

lemma word_large:
  "(c :: u32) = COST_UNDEF \<or> c = COST_UNDEF - 1 \<Longrightarrow> 4294960000 < unat c"
  by (auto simp: COST_UNDEF_def)

lemma loop_body_levels:
  assumes small: "grid_small cap (width m0) (height m0)"
    and inv: "bfs_inv cap m0 b m q" and lv: "bfs_levels m0 b m q" and ne: "q_first q \<noteq> q_last q"
    and plain: "plain_grid m0 b"
    and body: "loop_body m q = Inr (m', q')"
  shows "bfs_levels m0 b m' q'"
proof -
  let ?w = "width m0" and ?h = "height m0" and ?E = "enqueued q"
  let ?D = "\<lambda>p. manhattan p b"
  let ?P = "\<lambda>p r. manhattan p b \<le> manhattan r b"
  define k where "k = nat (q_first q)"
  define c where "c = ?E ! nat (q_first q)"
  define new where "new = fresh_in (costs m) (neighbours ?w ?h c)"
  define d where "d = ?D c"
  from loop_body_inv [OF small inv ne c_def new_def] body
  have inv': "bfs_inv cap m0 b m' q'" and first': "q_first q' = q_first q + 1"
    and enq': "enqueued q' = ?E @ new"
    and cost': "\<And>r. POSITION_IS_VALID r ?w ?h \<Longrightarrow> cell_at (costs m') r =
        (if r = c then cell_value m c
         else if r \<in> set new then COST_UNDEF - 1 else cell_at (costs m) r)"
    by auto
  from inv have sh: "same_shape m0 m" and qok: "queue_ok q" and dist: "distinct ?E"
    and val: "\<forall>p \<in> set ?E. POSITION_IS_VALID p ?w ?h"
    and nonempty: "?E \<noteq> []" and hd: "hd ?E = b" and base: "cell_at (soils m0) b = BASE_STATION"
    and untouched: "\<forall>p. POSITION_IS_VALID p ?w ?h \<longrightarrow> p \<notin> set ?E \<longrightarrow> cell_at (costs m) p = COST_UNDEF"
    and pend: "\<forall>p \<in> set (pending q). awaiting m q b p"
    by (simp_all add: bfs_inv_def)
  from lv have L1: "\<forall>p \<in> set (settled q). unat (cell_at (costs m) p) = ?D p"
    and L2: "sorted_wrt ?P ?E"
    and L3: "\<forall>p \<in> set (pending q). ?D p \<le> ?D (hd (pending q)) + 1"
    and L4: "\<forall>p. pending q \<noteq> [] \<longrightarrow> POSITION_IS_VALID p ?w ?h \<longrightarrow>
          ?D p < ?D (hd (pending q)) \<longrightarrow> p \<in> set (settled q)"
    and L5: "\<forall>p \<in> set (settled q). set (neighbours ?w ?h p) \<subseteq> set ?E"
    by (simp_all add: bfs_levels_def)
  have dims: "width m = ?w" "height m = ?h" "soils m = soils m0"
    using sh by (simp_all add: same_shape_def)
  have first0: "0 \<le> q_first q"
    using qok by (simp add: queue_ok_def)
  have klt: "k < length ?E"
    using dequeue_ok [OF qok ne] by (simp add: k_def)
  have ck: "c = ?E ! k"
    by (simp add: c_def k_def)
  have split: "?E = take k ?E @ c # drop (Suc k) ?E"
    using klt by (simp add: ck id_take_nth_drop [symmetric])
  have cE: "c \<in> set ?E"
    using klt by (simp add: ck)
  have cvalid: "POSITION_IS_VALID c ?w ?h"
    using cE val by blast
  have bvalid: "POSITION_IS_VALID b ?w ?h"
    using nonempty hd val by (metis hd_in_set)
  have sett_eq: "settled q = take k ?E"
    by (simp add: settled_def k_def)
  have pend_eq: "pending q = c # drop (Suc k) ?E"
    using klt by (simp add: pending_def k_def [symmetric] ck Cons_nth_drop_Suc)
  have hdp: "hd (pending q) = c" and pne: "pending q \<noteq> []"
    by (simp_all add: pend_eq)
  have k': "nat (q_first q') = Suc k"
    using first' first0 by (simp add: k_def nat_add_distrib)
  have sett': "settled q' = take k ?E @ [c]"
    using klt by (simp add: settled_def k' enq' take_Suc_conv_app_nth ck)
  have pend': "pending q' = drop (Suc k) ?E @ new"
    using klt by (simp add: pending_def k' enq')
  have dsplit: "distinct (take k ?E @ c # drop (Suc k) ?E)"
    using dist split by simp
  have ssplit: "sorted_wrt ?P (take k ?E @ c # drop (Suc k) ?E)"
    using L2 split by simp
  have before: "?D p \<le> d" if "p \<in> set (take k ?E)" for p
    using ssplit that by (auto simp: sorted_wrt_append d_def)
  have after: "d \<le> ?D p" if "p \<in> set (drop (Suc k) ?E)" for p
    using ssplit that by (auto simp: sorted_wrt_append d_def)
  have sorted_rest: "sorted_wrt ?P (drop (Suc k) ?E)"
    using ssplit by (simp add: sorted_wrt_append)
  have old_notc: "p \<noteq> c" if "p \<in> set (take k ?E)" for p
    using dsplit that by auto
  have rest_notc: "p \<noteq> c" if "p \<in> set (drop (Suc k) ?E)" for p
    using dsplit that by auto
  have sett_cost: "unat (cell_at (costs m) p) \<le> 4294960000" if "p \<in> set (settled q)" for p
    using small inv that by (rule bfs_inv_settled_bound)
  have new_nb: "set new \<subseteq> set (neighbours ?w ?h c)"
    by (auto simp: new_def fresh_in_def)
  have new_undef: "\<forall>n \<in> set new. cell_at (costs m) n = COST_UNDEF"
    by (simp add: new_def fresh_in_def)
  have new_valid: "\<forall>n \<in> set new. POSITION_IS_VALID n ?w ?h"
    using new_nb neighbours_valid by blast
  have sett_not_new: "p \<notin> set new" if "p \<in> set (settled q)" for p
  proof
    assume "p \<in> set new"
    then have "4294960000 < unat (cell_at (costs m) p)"
      using new_undef word_large by blast
    then show False using sett_cost [OF that] by simp
  qed
  have low: "p \<in> set (settled q)" if "POSITION_IS_VALID p ?w ?h" "?D p < d" for p
    using L4 pne that by (simp add: hdp d_def)
  have new_level: "?D n = d + 1" if "n \<in> set new" for n
  proof -
    have nb: "n \<in> set (neighbours ?w ?h c)" using that new_nb by blast
    have nv: "POSITION_IS_VALID n ?w ?h" using that new_valid by blast
    from manhattan_neighbour [OF cvalid nb, of b]
    have "?D n = d + 1 \<or> ?D n + 1 = d" by (simp add: d_def)
    moreover have "\<not> ?D n + 1 = d"
    proof
      assume "?D n + 1 = d"
      then have "n \<in> set (settled q)" using low [OF nv] by simp
      then show False using sett_not_new that by blast
    qed
    ultimately show ?thesis by blast
  qed
  have nb_cost: "d - 1 \<le> unat (cell_at (costs m) r)"
    if r: "r \<in> set (neighbours ?w ?h c)" and d1: "d - 1 \<le> 4294960000" for r
  proof -
    have rv: "POSITION_IS_VALID r ?w ?h" using r by (rule neighbours_valid)
    consider "r \<in> set (settled q)" | "r \<in> set (pending q)" | "r \<notin> set ?E"
      using append_take_drop_id [of k ?E] set_append [of "take k ?E" "drop k ?E"]
      by (auto simp: settled_def pending_def k_def)
    then show ?thesis
    proof cases
      case 1
      have "?D r = d + 1 \<or> ?D r + 1 = d"
        using manhattan_neighbour [OF cvalid r, of b] by (simp add: d_def)
      then show ?thesis using L1 1 by auto
    next
      case 2
      then have "awaiting m q b r" using pend by blast
      then have "4294960000 < unat (cell_at (costs m) r)"
        unfolding awaiting_def using word_large by blast
      then show ?thesis using d1 by simp
    next
      case 3
      then have "cell_at (costs m) r = COST_UNDEF" using untouched rv by blast
      then have "4294960000 < unat (cell_at (costs m) r)"
        using word_large by blast
      then show ?thesis using d1 by simp
    qed
  qed
  have cval: "unat (cell_value m c) = d"
  proof (cases "c = b")
    case True
    then show ?thesis
      using base by (simp add: cell_value_def dims d_def manhattan_zero)
  next
    case False
    from manhattan_closer [OF cvalid bvalid False] obtain n where
      n: "n \<in> set (neighbours ?w ?h c)" "?D n + 1 = d"
      by (auto simp: d_def)
    have ns: "n \<in> set (settled q)"
      using low [OF neighbours_valid [OF n(1)]] n(2) by simp
    then have nc: "unat (cell_at (costs m) n) = d - 1"
      using L1 n(2) by auto
    then have d1: "d - 1 \<le> 4294960000"
      using sett_cost [OF ns] by simp
    have cm: "unat (cost_min_from (costs m) (neighbours ?w ?h c) 0xFFFFFFFF) = d - 1"
      using n(1) nc nb_cost d1 by (intro cost_min_exact) blast+
    have "cell_at (soils m0) c = PLAIN"
      using plain cvalid False by (simp add: plain_grid_def)
    then have v: "cell_value m c = cost_min_from (costs m) (neighbours ?w ?h c) 0xFFFFFFFF + 1"
      by (simp add: cell_value_def dims)
    have "unat (cost_min_from (costs m) (neighbours ?w ?h c) 0xFFFFFFFF) + unat (1 :: u32)
            < 2 ^ LENGTH(32)"
      using cm d1 by simp
    then have "unat (cost_min_from (costs m) (neighbours ?w ?h c) 0xFFFFFFFF + 1) =
        unat (cost_min_from (costs m) (neighbours ?w ?h c) 0xFFFFFFFF) + unat (1 :: u32)"
      by (simp only: unat_add_lem [THEN iffD1])
    then show ?thesis
      using cm n(2) by (simp add: v)
  qed
  have N1: "unat (cell_at (costs m') p) = ?D p" if "p \<in> set (settled q')" for p
  proof -
    from that consider "p \<in> set (take k ?E)" | "p = c"
      by (auto simp: sett')
    then show ?thesis
    proof cases
      case 1
      then have ps: "p \<in> set (settled q)" by (simp add: sett_eq)
      have pv: "POSITION_IS_VALID p ?w ?h"
        using 1 val in_set_takeD by fast
      have "cell_at (costs m') p = cell_at (costs m) p"
        using cost' [OF pv] old_notc [OF 1] sett_not_new [OF ps] by simp
      then show ?thesis using L1 ps by simp
    next
      case 2
      then show ?thesis
        using cost' [OF cvalid] cval by (simp add: d_def)
    qed
  qed
  have N2: "sorted_wrt ?P (?E @ new)"
  proof -
    have "sorted_wrt ?P new"
      using new_level by (intro sorted_wrt_all) simp
    moreover have "?D x \<le> ?D y" if "x \<in> set ?E" "y \<in> set new" for x y
    proof -
      have "?D x \<le> d + 1"
      proof -
        from that(1) consider "x \<in> set (take k ?E)" | "x \<in> set (pending q)"
          using split by (metis Un_iff pend_eq set_append)
        then show ?thesis
        proof cases
          case 1
          then show ?thesis using before by fastforce
        next
          case 2
          then show ?thesis using L3 by (auto simp: hdp d_def)
        qed
      qed
      then show ?thesis using new_level [OF that(2)] by simp
    qed
    ultimately show ?thesis
      using L2 by (simp add: sorted_wrt_append)
  qed
  have head_ge: "d \<le> ?D (hd (pending q'))" if "pending q' \<noteq> []"
  proof -
    have "hd (pending q') \<in> set (pending q')" using that by simp
    then consider "hd (pending q') \<in> set (drop (Suc k) ?E)" | "hd (pending q') \<in> set new"
      by (auto simp: pend')
    then show ?thesis
    proof cases
      case 1
      then show ?thesis by (rule after)
    next
      case 2
      then show ?thesis using new_level by simp
    qed
  qed
  have pend_le: "?D p \<le> d + 1" if "p \<in> set (pending q')" for p
  proof -
    from that consider "p \<in> set (drop (Suc k) ?E)" | "p \<in> set new"
      by (auto simp: pend')
    then show ?thesis
    proof cases
      case 1
      then have "p \<in> set (pending q)" by (simp add: pend_eq)
      then show ?thesis using L3 by (auto simp: hdp d_def)
    next
      case 2
      then show ?thesis using new_level by simp
    qed
  qed
  have N3: "?D p \<le> ?D (hd (pending q')) + 1" if "p \<in> set (pending q')" for p
  proof -
    have "pending q' \<noteq> []" using that by auto
    then show ?thesis
      using head_ge pend_le [OF that] by fastforce
  qed
  have N5: "set (neighbours ?w ?h p) \<subseteq> set (enqueued q')" if "p \<in> set (settled q')" for p
  proof -
    from that consider "p \<in> set (settled q)" | "p = c"
      by (auto simp: sett' sett_eq)
    then show ?thesis
    proof cases
      case 1
      then show ?thesis using L5 by (auto simp: enq')
    next
      case 2
      have "r \<in> set (?E @ new)" if "r \<in> set (neighbours ?w ?h c)" for r
      proof (cases "r \<in> set ?E")
        case True
        then show ?thesis by simp
      next
        case False
        then have "cell_at (costs m) r = COST_UNDEF"
          using untouched neighbours_valid [OF that] by blast
        then show ?thesis
          using that by (simp add: new_def fresh_in_def)
      qed
      then show ?thesis by (auto simp: 2 enq')
    qed
  qed
  have N4: "p \<in> set (settled q')"
    if ne': "pending q' \<noteq> []" and pv: "POSITION_IS_VALID p ?w ?h"
      and lt: "?D p < ?D (hd (pending q'))" for p
  proof -
    have "hd (pending q') \<in> set (pending q')" using ne' by simp
    then have "?D (hd (pending q')) \<le> d + 1" by (rule pend_le)
    then consider "?D p < d" | "?D p = d" using lt by linarith
    then show ?thesis
    proof cases
      case 1
      then show ?thesis using low [OF pv] by (simp add: sett' sett_eq)
    next
      case 2
      show ?thesis
      proof (cases "p = c")
        case True
        then show ?thesis by (simp add: sett')
      next
        case False
        have "p \<noteq> b"
        proof
          assume "p = b"
          then have "d = 0" using 2 manhattan_zero [of b b] by simp
          then have "c = b" by (simp add: d_def manhattan_zero)
          then show False using False \<open>p = b\<close> by simp
        qed
        from manhattan_closer [OF pv bvalid this] obtain n where
          n: "n \<in> set (neighbours ?w ?h p)" "?D n + 1 = ?D p"
          by blast
        have nv: "POSITION_IS_VALID n ?w ?h" using n(1) by (rule neighbours_valid)
        have "n \<in> set (settled q)"
          using low [OF nv] n(2) 2 by simp
        moreover have "p \<in> set (neighbours ?w ?h n)"
          using pv n(1) by (rule neighbours_sym)
        ultimately have "p \<in> set ?E" using L5 by blast
        then consider "p \<in> set (take k ?E)" | "p \<in> set (drop (Suc k) ?E)"
          using split False by (metis Un_iff set_ConsD set_append)
        then show ?thesis
        proof cases
          case 1
          then show ?thesis by (simp add: sett')
        next
          case 2
          then have dne: "drop (Suc k) ?E \<noteq> []" by auto
          then have "hd (pending q') = hd (drop (Suc k) ?E)"
            by (simp add: pend')
          moreover have "?D (hd (drop (Suc k) ?E)) \<le> ?D p"
            using sorted_rest 2 by (rule sorted_hd_least)
          ultimately show ?thesis using lt by simp
        qed
      qed
    qed
  qed
  show ?thesis
    unfolding bfs_levels_def using N1 N2 N3 N4 N5 by (simp add: enq')
qed

lemma bfs_levels_initial:
  assumes "enqueued q = [b]" and "q_first q = 0"
  shows "bfs_levels m0 b m q"
proof -
  have "pending q = [b]" "settled q = []"
    using assms by (simp_all add: pending_def settled_def)
  then show ?thesis
    using assms(1) by (simp add: bfs_levels_def manhattan_zero [of b b, THEN iffD2])
qed

lemma loop_iterate_levels:
  assumes "grid_small cap (width m0) (height m0)" and "plain_grid m0 b"
  shows "bfs_inv cap m0 b m q \<Longrightarrow> bfs_levels m0 b m q \<Longrightarrow> loop_iterate n m q = Inr (m', q') \<Longrightarrow>
         bfs_inv cap m0 b m' q' \<and> bfs_levels m0 b m' q'"
proof (induction n arbitrary: m q)
  case 0
  then show ?case by simp
next
  case (Suc n)
  show ?case
  proof (cases "q_first q \<noteq> q_last q")
    case False
    then show ?thesis using Suc.prems by simp
  next
    case True
    then obtain m1 q1 where s: "loop_body m q = Inr (m1, q1)" "loop_iterate n m1 q1 = Inr (m', q')"
      using Suc.prems(3) by (auto split: sum.splits)
    have "bfs_inv cap m0 b m1 q1"
      using loop_body_inv [OF assms(1) Suc.prems(1) True refl refl] s(1) by auto
    moreover have "bfs_levels m0 b m1 q1"
      using assms(1) Suc.prems(1,2) True assms(2) s(1) by (rule loop_body_levels)
    ultimately show ?thesis
      using s(2) by (rule Suc.IH)
  qed
qed

lemma bfs_final_distances:
  assumes small: "grid_small cap (width m0) (height m0)"
    and inv: "bfs_inv cap m0 b m q" and lv: "bfs_levels m0 b m q" and fin: "q_first q = q_last q"
  shows "distance_map m0 b m"
proof -
  let ?w = "width m0" and ?h = "height m0" and ?E = "enqueued q"
  from inv have ok: "map_ok m" and sh: "same_shape m0 m" and qok: "queue_ok q"
    and val: "\<forall>p \<in> set ?E. POSITION_IS_VALID p ?w ?h"
    and nonempty: "?E \<noteq> []" and hd: "hd ?E = b"
    by (simp_all add: bfs_inv_def)
  from lv have L1: "\<forall>p \<in> set (settled q). unat (cell_at (costs m) p) = manhattan p b"
    and L5: "\<forall>p \<in> set (settled q). set (neighbours ?w ?h p) \<subseteq> set ?E"
    by (simp_all add: bfs_levels_def)
  have "nat (q_first q) = length ?E"
    using length_enqueued [OF qok] fin by simp
  then have all: "settled q = ?E"
    by (simp add: settled_def)
  have bvalid: "POSITION_IS_VALID b ?w ?h"
    using nonempty hd val by (metis hd_in_set)
  have reach: "POSITION_IS_VALID p ?w ?h \<Longrightarrow> manhattan p b = j \<Longrightarrow> p \<in> set ?E" for p j
  proof (induction j arbitrary: p)
    case 0
    then have "p = b" by (simp add: manhattan_zero)
    then show ?case using nonempty hd by (metis hd_in_set)
  next
    case (Suc j)
    then have "p \<noteq> b" using manhattan_zero [of b b] by auto
    from manhattan_closer [OF Suc.prems(1) bvalid this] obtain n where
      n: "n \<in> set (neighbours ?w ?h p)" "manhattan n b + 1 = manhattan p b"
      by blast
    have nv: "POSITION_IS_VALID n ?w ?h" using n(1) by (rule neighbours_valid)
    have "n \<in> set ?E"
      using Suc.IH [OF nv] n(2) Suc.prems(2) by simp
    moreover have "p \<in> set (neighbours ?w ?h n)"
      using Suc.prems(1) n(1) by (rule neighbours_sym)
    ultimately show ?case using L5 all by auto
  qed
  have "unat (cell_at (costs m) p) = manhattan p b \<and> manhattan p b \<le> 4294960000"
    if "POSITION_IS_VALID p ?w ?h" for p
  proof -
    have s: "p \<in> set (settled q)" using reach [OF that refl] all by simp
    then have "unat (cell_at (costs m) p) = manhattan p b" using L1 by blast
    then show ?thesis
      using bfs_inv_settled_bound [OF small inv s] by simp
  qed
  then show ?thesis
    using ok sh by (simp add: distance_map_def)
qed

lemma cell_value_distance:
  assumes dm: "distance_map m0 b m" and plain: "plain_grid m0 b"
    and bvalid: "POSITION_IS_VALID b (width m0) (height m0)"
    and base: "cell_at (soils m0) b = BASE_STATION"
    and pv: "POSITION_IS_VALID p (width m0) (height m0)"
  shows "cell_value m p = cell_at (costs m) p"
proof -
  let ?w = "width m0" and ?h = "height m0"
  from dm have sh: "same_shape m0 m"
    and D: "\<And>r. POSITION_IS_VALID r ?w ?h \<Longrightarrow> unat (cell_at (costs m) r) = manhattan r b"
    and far: "\<And>r. POSITION_IS_VALID r ?w ?h \<Longrightarrow> manhattan r b \<le> 4294960000"
    by (simp_all add: distance_map_def)
  have dims: "width m = ?w" "height m = ?h" "soils m = soils m0"
    using sh by (simp_all add: same_shape_def)
  have "unat (cell_value m p) = manhattan p b"
  proof (cases "p = b")
    case True
    then show ?thesis
      using base manhattan_zero [of b b] by (simp add: cell_value_def dims)
  next
    case False
    let ?cmin = "cost_min_from (costs m) (neighbours ?w ?h p) 0xFFFFFFFF"
    from manhattan_closer [OF pv bvalid False] obtain n where
      n: "n \<in> set (neighbours ?w ?h p)" "manhattan n b + 1 = manhattan p b"
      by blast
    have nc: "unat (cell_at (costs m) n) = manhattan p b - 1"
      using D [OF neighbours_valid [OF n(1)]] n(2) by simp
    have lb: "manhattan p b - 1 \<le> unat (cell_at (costs m) r)"
      if "r \<in> set (neighbours ?w ?h p)" for r
      using manhattan_neighbour [OF pv that, of b] D [OF neighbours_valid [OF that]] by auto
    have cm: "unat ?cmin = manhattan p b - 1"
      using n(1) nc lb by (rule cost_min_exact)
    have "cell_at (soils m0) p = PLAIN"
      using plain pv False by (simp add: plain_grid_def)
    then have v: "cell_value m p = ?cmin + 1"
      by (simp add: cell_value_def dims)
    have "unat ?cmin + unat (1 :: u32) < 2 ^ LENGTH(32)"
      using cm far [OF pv] by simp
    then have "unat (?cmin + 1) = unat ?cmin + unat (1 :: u32)"
      by (simp only: unat_add_lem [THEN iffD1])
    then show ?thesis
      using cm n(2) by (simp add: v)
  qed
  then have "unat (cell_value m p) = unat (cell_at (costs m) p)"
    using D [OF pv] by simp
  then show ?thesis
    by (simp only: word_unat_eq_iff)
qed

lemma sweep_distance:
  assumes plain: "plain_grid m0 b" and bvalid: "POSITION_IS_VALID b (width m0) (height m0)"
    and base: "cell_at (soils m0) b = BASE_STATION"
  shows "distance_map m0 b m \<Longrightarrow> \<forall>p \<in> set ps. POSITION_IS_VALID p (width m0) (height m0) \<Longrightarrow>
         \<exists>m'. sweep m ps = Inr m' \<and> distance_map m0 b m'"
proof (induction ps arbitrary: m)
  case Nil
  then show ?case by simp
next
  case (Cons p ps)
  let ?w = "width m0" and ?h = "height m0"
  from Cons.prems(1) have ok: "map_ok m" and sh: "same_shape m0 m"
    by (simp_all add: distance_map_def)
  have dims: "width m = ?w" "height m = ?h"
    using sh by (simp_all add: same_shape_def)
  have pv: "POSITION_IS_VALID p ?w ?h"
    using Cons.prems(2) by simp
  have okc: "grid_ok ?w ?h (costs m)"
    using ok dims by (simp add: map_ok_def)
  define m1 where
    "m1 = (if needs_repair m p then m\<lparr>costs := grid_upd (costs m) p (cell_value m p)\<rparr> else m)"
  have rc: "repair_cell m p = Inr m1"
    unfolding m1_def using ok pv dims by (intro repair_cell_eq) simp_all
  have same: "cell_at (costs m1) r = cell_at (costs m) r" if "POSITION_IS_VALID r ?w ?h" for r
    using cell_at_upd [OF okc pv that, of "cell_value m p"]
      cell_value_distance [OF Cons.prems(1) plain bvalid base pv]
    by (simp add: m1_def)
  have "map_ok m1"
    using ok by (simp add: m1_def map_ok_def grid_ok_upd)
  moreover have "same_shape m0 m1"
    using sh by (simp add: m1_def same_shape_def)
  ultimately have "distance_map m0 b m1"
    using Cons.prems(1) same by (simp add: distance_map_def)
  from Cons.IH [OF this] Cons.prems(2) show ?case
    by (simp add: rc)
qed

lemma cell_count_row: "cell_count w 1 = unat w"
  by (simp add: cell_count_def)

lemma corridor_pos_valid: "i < unat w \<Longrightarrow> POSITION_IS_VALID (corridor_pos i) w 1"
  by (simp add: valid_unat corridor_pos_def unat_of_nat_u32)

lemma corridor_pos_inj: "i < unat (w :: u32) \<Longrightarrow> j < unat w \<Longrightarrow> corridor_pos i = corridor_pos j \<longleftrightarrow> i = j"
proof
  assume "i < unat w" "j < unat w" "corridor_pos i = corridor_pos j"
  then have "unat (of_nat i :: u32) = unat (of_nat j :: u32)"
    by (simp add: corridor_pos_def)
  then show "i = j"
    using \<open>i < unat w\<close> \<open>j < unat w\<close> by (simp add: unat_of_nat_u32)
qed simp

lemma corridor_neighbours:
  assumes "n < unat w"
  shows "neighbours w 1 (corridor_pos n) =
     (if 0 < n then [corridor_pos (n - 1)] else []) @
     (if Suc n < unat w then [corridor_pos (Suc n)] else [])"
proof -
  have west: "POSITION_IS_VALID \<lparr>pos_x = of_nat n - 1, pos_y = 0\<rparr> w 1 \<longleftrightarrow> 0 < n"
  proof (cases n)
    case 0
    have "\<not> (- 1 :: u32) < w" by (rule leD) simp
    then show ?thesis using 0 by (simp add: POSITION_IS_VALID_def)
  next
    case (Suc k)
    then have "corridor_pos k = \<lparr>pos_x = of_nat n - 1, pos_y = 0\<rparr>"
      by (simp add: corridor_pos_def)
    moreover have "POSITION_IS_VALID (corridor_pos k) w 1"
      using assms Suc by (intro corridor_pos_valid) simp
    ultimately show ?thesis using Suc by simp
  qed
  have east: "POSITION_IS_VALID \<lparr>pos_x = of_nat n + 1, pos_y = 0\<rparr> w 1 \<longleftrightarrow> Suc n < unat w"
  proof -
    have "of_nat n < w"
      using assms by (simp add: word_less_nat_alt unat_of_nat_u32)
    then have "unat (of_nat n + 1 :: u32) = unat (of_nat n :: u32) + 1"
      by (rule unat_succ)
    then show ?thesis
      using assms by (simp add: valid_unat unat_of_nat_u32)
  qed
  have north: "\<not> POSITION_IS_VALID \<lparr>pos_x = of_nat n, pos_y = - 1\<rparr> w 1"
    by (simp add: POSITION_IS_VALID_def)
  have south: "\<not> POSITION_IS_VALID \<lparr>pos_x = of_nat n, pos_y = 1\<rparr> w 1"
    by (simp add: POSITION_IS_VALID_def)
  have e: "corridor_pos (Suc n) = \<lparr>pos_x = of_nat n + 1, pos_y = 0\<rparr>"
    by (simp add: corridor_pos_def)
  have w': "0 < n \<Longrightarrow> corridor_pos (n - 1) = \<lparr>pos_x = of_nat n - 1, pos_y = 0\<rparr>"
    by (cases n) (simp_all add: corridor_pos_def)
  have cand: "map (neighbour_pos (corridor_pos n)) direction_vectors =
      [\<lparr>pos_x = of_nat n - 1, pos_y = 0\<rparr>, \<lparr>pos_x = of_nat n + 1, pos_y = 0\<rparr>,
       \<lparr>pos_x = of_nat n, pos_y = - 1\<rparr>, \<lparr>pos_x = of_nat n, pos_y = 1\<rparr>]"
    by (simp add: direction_vectors_def neighbour_pos_def corridor_pos_def)
  show ?thesis
  proof (cases "0 < n")
    case True
    show ?thesis
      unfolding neighbours_def neighbours_in_def cand
      using True by (simp only: filter.simps west east north south e w' if_True if_False
          append.simps split: if_splits)
  next
    case False
    show ?thesis
      unfolding neighbours_def neighbours_in_def cand
      using False by (simp only: filter.simps west east north south e if_True if_False
          append.simps split: if_splits)
  qed
qed

lemma path_cost_Suc:
  "j < length ts \<Longrightarrow> path_cost ts (Suc j) = path_cost ts j + unat (soil_cost (ts ! j))"
  by (simp add: path_cost_def take_Suc_conv_app_nth)

lemma path_cost_mono: "i \<le> j \<Longrightarrow> path_cost ts i \<le> path_cost ts j"
proof -
  assume "i \<le> j"
  then have "take j ts = take i ts @ take (j - i) (drop i ts)"
    by (metis le_add_diff_inverse take_add)
  then show ?thesis by (simp add: path_cost_def)
qed

lemma corridor_soil:
  assumes "grid_ok w 1 [BASE_STATION # ts]" and "n < unat w"
  shows "cell_at [BASE_STATION # ts] (corridor_pos n) = (BASE_STATION # ts) ! n"
  using assms by (simp add: cell_at_def corridor_pos_def unat_of_nat_u32)

lemma min_undef: "min (c :: u32) 0xFFFFFFFF = c" "min 0xFFFFFFFF (c :: u32) = c"
proof -
  have "c \<le> 0xFFFFFFFF"
    using undef_not_less [of c] by (simp only: COST_UNDEF_def not_less)
  then show "min c 0xFFFFFFFF = c" "min 0xFFFFFFFF c = c"
    by (simp_all add: min_def)
qed

lemma loop_iterate_empty: "q_first q = q_last q \<Longrightarrow> loop_iterate n m q = Inr (m, q)"
  by (cases n) simp_all

lemma loop_iterate_Suc_end:
  "loop_iterate (Suc n) m q =
     (case loop_iterate n m q of
        Inl e \<Rightarrow> Inl e
      | Inr (m1, q1) \<Rightarrow> if q_first q1 \<noteq> q_last q1 then loop_body m1 q1 else Inr (m1, q1))"
proof (induction n arbitrary: m q)
  case 0
  then show ?case by (simp split: sum.splits)
next
  case (Suc n)
  show ?case
  proof (cases "q_first q \<noteq> q_last q")
    case False
    then show ?thesis by (simp add: loop_iterate_empty)
  next
    case True
    show ?thesis
    proof (cases "loop_body m q")
      case (Inl e)
      then show ?thesis using True by simp
    next
      case (Inr r)
      obtain m1 q1 where r: "r = (m1, q1)" by (cases r)
      have "loop_iterate (Suc (Suc n)) m q = loop_iterate (Suc n) m1 q1"
        using True Inr r by simp
      also have "\<dots> = (case loop_iterate n m1 q1 of
        Inl e \<Rightarrow> Inl e
      | Inr (m2, q2) \<Rightarrow> if q_first q2 \<noteq> q_last q2 then loop_body m2 q2 else Inr (m2, q2))"
        by (rule Suc.IH)
      also have "loop_iterate n m1 q1 = loop_iterate (Suc n) m q"
        using True Inr r by simp
      finally show ?thesis .
    qed
  qed
qed

lemma corridor_step_general:
  assumes st: "corridor_state w ts n m q" and gok: "grid_ok w 1 [BASE_STATION # ts]"
    and lt: "n < unat w" and nobase: "BASE_STATION \<notin> set ts"
    and c: "c = corridor_pos n"
    and new: "new = fresh_in (costs m) (neighbours w 1 c)"
    and q1: "q1 = q\<lparr>q_first := q_first q + 1\<rparr>"
    and ea: "enqueue_all q1 new = Inr q'"
    and m': "m' = m\<lparr>costs := grid_upd (mark_all (costs m) new) c (of_nat (path_cost ts n))\<rparr>"
  shows "loop_body m q = Inr (m', q') \<and> map_ok m' \<and> width m' = w \<and> height m' = 1 \<and>
         soils m' = [BASE_STATION # ts] \<and>
         (\<forall>r. POSITION_IS_VALID r w 1 \<longrightarrow> cell_at (costs m') r =
              (if r = c then of_nat (path_cost ts n)
               else if r \<in> set new then COST_UNDEF - 1 else cell_at (costs m) r))"
proof -
  let ?E = "map corridor_pos [0..<Suc n]"
  from st have ok: "map_ok m" and dims: "width m = w" "height m = 1" "soils m = [BASE_STATION # ts]"
    and qok: "queue_ok q" and first: "q_first q = int n" and enq: "enqueued q = ?E"
    and before: "\<forall>i < n. cell_at (costs m) (corridor_pos i) = of_nat (path_cost ts i)"
    and after: "\<forall>i. n < i \<longrightarrow> i < unat w \<longrightarrow> cell_at (costs m) (corridor_pos i) = COST_UNDEF"
    by (simp_all add: corridor_state_def)
  have okc: "grid_ok w 1 (costs m)"
    using ok dims by (simp add: map_ok_def)
  have "length (enqueued q) = nat (q_last q)"
    using qok by (rule length_enqueued)
  moreover have "0 \<le> q_last q"
    using qok by (simp add: queue_ok_def)
  ultimately have last: "q_last q = int (Suc n)"
    using enq by simp
  then have ne: "q_first q \<noteq> q_last q"
    using first by simp
  have "?E ! n = corridor_pos n"
    by (simp del: upt_Suc)
  then have deq: "dequeue q = Inr (c, q1)"
    using dequeue_ok [OF qok ne] by (simp add: first enq c q1)
  have cvalid: "POSITION_IS_VALID c w 1"
    unfolding c using lt by (rule corridor_pos_valid)
  have cvm: "POSITION_IS_VALID c (width m) (height m)"
    using cvalid dims by simp
  have nbrs: "neighbours w 1 c =
     (if 0 < n then [corridor_pos (n - 1)] else []) @
     (if Suc n < unat w then [corridor_pos (Suc n)] else [])"
    unfolding c using lt by (rule corridor_neighbours)
  have soil: "cell_at [BASE_STATION # ts] c = (BASE_STATION # ts) ! n"
    unfolding c using gok lt by (rule corridor_soil)
  have len: "length ts = unat w - 1"
    using gok by (simp add: grid_ok_def)
  have v: "cell_value m c = of_nat (path_cost ts n)"
  proof (cases n)
    case 0
    then show ?thesis
      by (simp add: cell_value_def dims soil path_cost_def)
  next
    case (Suc j)
    have j: "j < length ts" using lt len Suc by simp
    then have "ts ! j \<in> set ts" by simp
    then have "ts ! j \<noteq> BASE_STATION" using nobase by auto
    then have t: "soil_cost (ts ! j) \<noteq> 0" by (cases "ts ! j") simp_all
    have prev: "cell_at (costs m) (corridor_pos j) = of_nat (path_cost ts j)"
      using before Suc by simp
    have east: "cell_at (costs m) (corridor_pos (Suc n)) = 0xFFFFFFFF" if "Suc n < unat w"
      using after that by (simp add: COST_UNDEF_def)
    have "cost_min_from (costs m) (neighbours w 1 c) 0xFFFFFFFF = of_nat (path_cost ts j)"
      using east by (simp add: nbrs Suc cost_min_from_def prev min_undef)
    then have "cell_value m c = of_nat (path_cost ts j) + soil_cost (ts ! j)"
      using t by (simp add: cell_value_def dims soil Suc)
    also have "\<dots> = of_nat (path_cost ts j) + of_nat (unat (soil_cost (ts ! j)))"
      by simp
    also have "\<dots> = of_nat (path_cost ts (Suc j))"
      by (simp only: path_cost_Suc [OF j] of_nat_add)
    finally show ?thesis by (simp add: Suc)
  qed
  have ccc: "compute_cell_cost m c (Some q1) =
      Inr (of_nat (path_cost ts n), m\<lparr>costs := mark_all (costs m) new\<rparr>, Some q')"
    using compute_cell_cost_Some [OF ok cvm, of q1] ea by (simp add: dims new v)
  have okmark: "grid_ok w 1 (mark_all (costs m) new)"
    using okc by (rule grid_ok_mark_all)
  have lb: "loop_body m q = Inr (m', q')"
    unfolding loop_body_def deq
    by (simp add: ccc cell_set_valid [OF okmark cvalid] m')
  have new_valid: "\<forall>r \<in> set new. POSITION_IS_VALID r w 1"
    using neighbours_valid by (auto simp: new fresh_in_def)
  have cost': "cell_at (costs m') r =
      (if r = c then of_nat (path_cost ts n)
       else if r \<in> set new then COST_UNDEF - 1 else cell_at (costs m) r)"
    if "POSITION_IS_VALID r w 1" for r
    using cell_at_upd [OF okmark cvalid that] cell_at_mark_all [OF okc new_valid that]
    by (simp add: m')
  have "map_ok m'"
    using ok okmark dims by (simp add: m' map_ok_def grid_ok_upd)
  then show ?thesis
    using lb cost' dims by (simp add: m')
qed

lemma corridor_step:
  assumes st: "corridor_state w ts n m q" and gok: "grid_ok w 1 [BASE_STATION # ts]"
    and lt: "Suc n < unat w" and nobase: "BASE_STATION \<notin> set ts"
    and prev: "0 < n \<Longrightarrow> (of_nat (path_cost ts (n - 1)) :: u32) \<noteq> COST_UNDEF"
  shows "\<exists>m' q'. loop_body m q = Inr (m', q') \<and> corridor_state w ts (Suc n) m' q'"
proof -
  let ?E = "map corridor_pos [0..<Suc n]"
  define c where "c = corridor_pos n"
  define new where "new = fresh_in (costs m) (neighbours w 1 c)"
  define q1 where "q1 = q\<lparr>q_first := q_first q + 1\<rparr>"
  from st have qok: "queue_ok q" and first: "q_first q = int n" and enq: "enqueued q = ?E"
    and size: "q_size q = int (cell_count w 1)"
    and before: "\<forall>i < n. cell_at (costs m) (corridor_pos i) = of_nat (path_cost ts i)"
    and after: "\<forall>i. n < i \<longrightarrow> i < unat w \<longrightarrow> cell_at (costs m) (corridor_pos i) = COST_UNDEF"
    by (simp_all add: corridor_state_def)
  have n: "n < unat w" using lt by simp
  have "length (enqueued q) = nat (q_last q)"
    using qok by (rule length_enqueued)
  moreover have "0 \<le> q_last q"
    using qok by (simp add: queue_ok_def)
  ultimately have last: "q_last q = int (Suc n)"
    using enq by simp
  then have ne: "q_first q \<noteq> q_last q"
    using first by simp
  have qok1: "queue_ok q1" and enq1: "enqueued q1 = ?E"
    using dequeue_ok [OF qok ne] enq by (simp_all add: q1_def)
  have nbrs: "neighbours w 1 c =
     (if 0 < n then [corridor_pos (n - 1)] else []) @ [corridor_pos (Suc n)]"
    unfolding c_def using corridor_neighbours [OF n] lt by simp
  have "cell_at (costs m) (corridor_pos (n - 1)) \<noteq> COST_UNDEF" if "0 < n"
    using before prev that by simp
  moreover have "cell_at (costs m) (corridor_pos (Suc n)) = COST_UNDEF"
    using after lt by simp
  ultimately have new: "new = [corridor_pos (Suc n)]"
    by (simp add: new_def nbrs fresh_in_def)
  have "Suc (Suc n) \<le> cell_count w 1"
    using lt by (simp add: cell_count_row)
  then have "int (Suc (Suc n)) \<le> int (cell_count w 1)"
    by (simp only: of_nat_le_iff)
  then have "q_last q1 + int (length new) \<le> q_size q1"
    using last size by (simp add: q1_def new)
  from enqueue_all_ok [OF qok1 this] obtain q' where
    q': "enqueue_all q1 new = Inr q'" "queue_ok q'" "enqueued q' = enqueued q1 @ new"
    "q_first q' = q_first q1" "q_size q' = q_size q1"
    by blast
  define m' where
    "m' = m\<lparr>costs := grid_upd (mark_all (costs m) new) c (of_nat (path_cost ts n))\<rparr>"
  from corridor_step_general [OF st gok n nobase c_def new_def q1_def q'(1) m'_def]
  have lb: "loop_body m q = Inr (m', q')" and ok': "map_ok m'"
    and dims': "width m' = w" "height m' = 1" "soils m' = [BASE_STATION # ts]"
    and cost': "\<And>r. POSITION_IS_VALID r w 1 \<Longrightarrow> cell_at (costs m') r =
              (if r = c then of_nat (path_cost ts n)
               else if r \<in> set new then COST_UNDEF - 1 else cell_at (costs m) r)"
    by simp_all
  have pc: "cell_at (costs m') (corridor_pos i) =
      (if i = n then of_nat (path_cost ts n)
       else if i = Suc n then COST_UNDEF - 1 else cell_at (costs m) (corridor_pos i))"
    if "i < unat w" for i
    using cost' [OF corridor_pos_valid [OF that]] corridor_pos_inj [OF that n]
      corridor_pos_inj [OF that lt]
    by (simp add: c_def new)
  have c1: "\<forall>i < Suc n. cell_at (costs m') (corridor_pos i) = of_nat (path_cost ts i)"
    using pc before lt by (auto simp: less_Suc_eq)
  have c2: "cell_at (costs m') (corridor_pos (Suc n)) = COST_UNDEF - 1"
    using pc [OF lt] by simp
  have c3: "\<forall>i. Suc n < i \<longrightarrow> i < unat w \<longrightarrow> cell_at (costs m') (corridor_pos i) = COST_UNDEF"
    using pc after by auto
  have "enqueued q' = map corridor_pos [0..<Suc (Suc n)]"
    using q'(3) enq1 new by simp
  moreover have "q_first q' = int (Suc n)" "q_size q' = int (cell_count w 1)"
    using q'(4,5) first size by (simp_all add: q1_def)
  ultimately have "corridor_state w ts (Suc n) m' q'"
    unfolding corridor_state_def using ok' dims' q'(2) c1 c2 c3 by simp
  then show ?thesis using lb by blast
qed

lemma corridor_run:
  assumes gok: "grid_ok w 1 [BASE_STATION # ts]" and nobase: "BASE_STATION \<notin> set ts"
    and init: "corridor_state w ts 0 m0 q0"
  shows "n < unat w \<Longrightarrow> \<forall>i. Suc i < n \<longrightarrow> (of_nat (path_cost ts i) :: u32) \<noteq> COST_UNDEF \<Longrightarrow>
         \<exists>m q. loop_iterate n m0 q0 = Inr (m, q) \<and> corridor_state w ts n m q"
proof (induction n)
  case 0
  then show ?case using init by simp
next
  case (Suc n)
  from Suc.prems have "n < unat w" "\<forall>i. Suc i < n \<longrightarrow> (of_nat (path_cost ts i) :: u32) \<noteq> COST_UNDEF"
    by simp_all
  from Suc.IH [OF this] obtain m q where
    s: "loop_iterate n m0 q0 = Inr (m, q)" "corridor_state w ts n m q"
    by blast
  have prev: "0 < n \<Longrightarrow> (of_nat (path_cost ts (n - 1)) :: u32) \<noteq> COST_UNDEF"
    using Suc.prems(2) by simp
  from corridor_step [OF s(2) gok Suc.prems(1) nobase prev] obtain m' q' where
    t: "loop_body m q = Inr (m', q')" "corridor_state w ts (Suc n) m' q'"
    by blast
  have "q_first q \<noteq> q_last q"
    using t(1) by (auto simp: loop_body_def dequeue_def split: if_splits)
  then have "loop_iterate (Suc n) m0 q0 = Inr (m', q')"
    using s(1) t(1) by (simp add: loop_iterate_Suc_end del: loop_iterate.simps)
  then show ?case using t(2) by blast
qed

lemma initial_queue_row:
  assumes small: "unat w < 2 ^ 31"
  shows "initial_queue (map_fill 1 w a) = createQueue (int (cell_count w 1))"
proof -
  have "uint w = int (unat w)"
    by (rule uint_nat)
  moreover have "unat w < 2147483648"
    using small by simp
  ultimately have "uint w < 2147483648"
    by linarith
  then have hi: "uint w < 2 ^ 31"
    by simp
  have "(- 2147483648 :: int) \<le> 0"
    by simp
  also have "0 \<le> uint w"
    by simp
  finally have "- (2 ^ 31) \<le> uint w"
    by simp
  then have "signed_take_bit 31 (uint w) = uint w"
    using hi by (rule signed_take_bit_int_eq_self)
  moreover have "sint w = signed_take_bit (LENGTH(32) - Suc 0) (uint w)"
    by (rule sint_uint)
  ultimately have "sint w = uint w"
    by simp
  then have "sint (w * 1) = int (cell_count w 1)"
    by (simp add: cell_count_row)
  then show ?thesis
    by (simp add: initial_queue_def)
qed

lemma corridor_base_found:
  assumes gok: "grid_ok w 1 [BASE_STATION # ts]"
  shows "get_base_station_pos (map_fill 1 w [BASE_STATION # ts]) = Inr (corridor_pos 0)"
proof -
  let ?a = "[BASE_STATION # ts]"
  have pos: "0 < unat w"
    using gok by (auto simp: grid_ok_def)
  have v0: "POSITION_IS_VALID (corridor_pos 0) w 1"
    using pos by (rule corridor_pos_valid)
  have "[0..<unat w] = 0 # [1..<unat w]"
    using pos by (simp add: upt_conv_Cons)
  then have rm: "row_major w 1 = corridor_pos 0 # map (\<lambda>i. \<lparr>pos_x = of_nat i, pos_y = 0\<rparr>) [1..<unat w]"
    by (simp add: row_major_def corridor_pos_def)
  have g0: "cell_get ?a (corridor_pos 0) = Some BASE_STATION"
    using cell_get_valid [OF gok v0] corridor_soil [OF gok pos] by simp
  show ?thesis
    by (simp add: get_base_station_pos_def rm g0)
qed

lemma corridor_initial:
  assumes gok: "grid_ok w 1 [BASE_STATION # ts]" and small: "unat w < 2 ^ 31"
  shows "\<exists>q0. (\<forall>n. compute_costs_steps n (map_fill 1 w [BASE_STATION # ts]) =
                   loop_iterate n (map_fill 1 w [BASE_STATION # ts]) q0) \<and>
              corridor_state w ts 0 (map_fill 1 w [BASE_STATION # ts]) q0"
proof -
  let ?a = "[BASE_STATION # ts]"
  let ?m = "map_fill 1 w ?a"
  let ?Q = "createQueue (int (cell_count w 1))"
  have pos: "0 < unat w"
    using gok by (auto simp: grid_ok_def)
  have ok: "map_ok ?m" and undef: "all_undef ?m"
    using map_fill_ok [OF gok] by simp_all
  have gb: "get_base_station_pos ?m = Inr (corridor_pos 0)"
    using gok by (rule corridor_base_found)
  have ns: "pos_x (corridor_pos 0) \<noteq> 0xFFFFFFFF \<and> pos_y (corridor_pos 0) \<noteq> 0xFFFFFFFF"
    by (simp add: corridor_pos_def)
  have iq: "initial_queue ?m = ?Q"
    using small by (rule initial_queue_row)
  have cc: "0 < cell_count w 1"
    using pos by (simp add: cell_count_row)
  have qok: "queue_ok ?Q"
    by (simp add: queue_ok_def createQueue_def)
  have "q_last ?Q < q_size ?Q"
    using cc by (simp add: createQueue_def)
  from enqueue_ok [OF qok this, of "corridor_pos 0"] obtain q0 where
    q0: "enqueue ?Q (corridor_pos 0) = Inr q0" "queue_ok q0"
    "enqueued q0 = enqueued ?Q @ [corridor_pos 0]" "q_first q0 = q_first ?Q" "q_size q0 = q_size ?Q"
    by blast
  have e0: "enqueued q0 = [corridor_pos 0]"
    unfolding q0(3) by (simp add: enqueued_def createQueue_def)
  have f0: "q_first q0 = 0" and s0: "q_size q0 = int (cell_count w 1)"
    unfolding q0(4,5) by (simp_all add: createQueue_def)
  have steps: "compute_costs_steps n ?m = loop_iterate n ?m q0" for n
    unfolding compute_costs_steps_def gb iq using ns q0(1) by simp
  have cells: "cell_at (costs ?m) (corridor_pos i) = COST_UNDEF" if "i < unat w" for i
    using undef corridor_pos_valid [OF that] unfolding all_undef_def map_fill_fields by blast
  have "corridor_state w ts 0 ?m q0"
    unfolding corridor_state_def using ok q0(2) e0 f0 s0 cells pos by simp
  then show ?thesis using steps by blast
qed

lemma corridor_state_cursors:
  assumes "corridor_state w ts n m q"
  shows "q_first q = int n \<and> q_last q = int (Suc n) \<and> q_first q \<noteq> q_last q"
proof -
  from assms have qok: "queue_ok q" and first: "q_first q = int n"
    and enq: "enqueued q = map corridor_pos [0..<Suc n]"
    by (simp_all add: corridor_state_def)
  have "length (enqueued q) = nat (q_last q)"
    using qok by (rule length_enqueued)
  moreover have "0 \<le> q_last q"
    using qok by (simp add: queue_ok_def)
  ultimately have "q_last q = int (Suc n)"
    using enq by simp
  then show ?thesis using first by simp
qed

lemma corridor_reenqueue:
  assumes st: "corridor_state w ts n m q" and gok: "grid_ok w 1 [BASE_STATION # ts]"
    and nobase: "BASE_STATION \<notin> set ts"
    and lt: "Suc (Suc n) < unat w" and n: "0 < n"
    and wrap: "(of_nat (path_cost ts (n - 1)) :: u32) = COST_UNDEF"
  shows "\<exists>m' q'. loop_body m q = Inr (m', q') \<and> q_first q' = int (Suc n) \<and>
           q_last q' = int (n + 3) \<and> q_size q' = int (cell_count w 1) \<and>
           enqueued q' = map corridor_pos [0..<Suc n] @ [corridor_pos (n - 1), corridor_pos (Suc n)]"
proof -
  let ?E = "map corridor_pos [0..<Suc n]"
  define c where "c = corridor_pos n"
  define new where "new = fresh_in (costs m) (neighbours w 1 c)"
  define q1 where "q1 = q\<lparr>q_first := q_first q + 1\<rparr>"
  from st have qok: "queue_ok q" and enq: "enqueued q = ?E"
    and size: "q_size q = int (cell_count w 1)"
    and before: "\<forall>i < n. cell_at (costs m) (corridor_pos i) = of_nat (path_cost ts i)"
    and after: "\<forall>i. n < i \<longrightarrow> i < unat w \<longrightarrow> cell_at (costs m) (corridor_pos i) = COST_UNDEF"
    by (simp_all add: corridor_state_def)
  from corridor_state_cursors [OF st] have first: "q_first q = int n"
    and last: "q_last q = int (Suc n)" and ne: "q_first q \<noteq> q_last q"
    by simp_all
  have nw: "n < unat w" and sn: "Suc n < unat w" using lt by simp_all
  have qok1: "queue_ok q1" and enq1: "enqueued q1 = ?E"
    using dequeue_ok [OF qok ne] enq by (simp_all add: q1_def)
  have nbrs: "neighbours w 1 c = [corridor_pos (n - 1), corridor_pos (Suc n)]"
    unfolding c_def using corridor_neighbours [OF nw] sn n by simp
  have "cell_at (costs m) (corridor_pos (n - 1)) = COST_UNDEF"
    using before wrap n by simp
  moreover have "cell_at (costs m) (corridor_pos (Suc n)) = COST_UNDEF"
    using after sn by simp
  ultimately have new: "new = [corridor_pos (n - 1), corridor_pos (Suc n)]"
    by (simp add: new_def nbrs fresh_in_def)
  have "n + 3 \<le> cell_count w 1"
    using lt by (simp add: cell_count_row)
  then have "int (n + 3) \<le> int (cell_count w 1)"
    by (simp only: of_nat_le_iff)
  then have "q_last q1 + int (length new) \<le> q_size q1"
    using last size by (simp add: q1_def new)
  from enqueue_all_ok [OF qok1 this] obtain q' where
    q': "enqueue_all q1 new = Inr q'" "enqueued q' = enqueued q1 @ new"
    "q_first q' = q_first q1" "q_size q' = q_size q1" "q_last q' = q_last q1 + int (length new)"
    by blast
  define m' where
    "m' = m\<lparr>costs := grid_upd (mark_all (costs m) new) c (of_nat (path_cost ts n))\<rparr>"
  from corridor_step_general [OF st gok nw nobase c_def new_def q1_def q'(1) m'_def]
  have "loop_body m q = Inr (m', q')"
    by simp
  moreover have "q_first q' = int (Suc n)" "q_last q' = int (n + 3)"
    "q_size q' = int (cell_count w 1)"
    using q'(3,4,5) first last size by (simp_all add: q1_def new)
  moreover have "enqueued q' = ?E @ [corridor_pos (n - 1), corridor_pos (Suc n)]"
    using q'(2) enq1 new by simp
  ultimately show ?thesis by blast
qed

lemma corridor_overrun:
  assumes st: "corridor_state w ts n m q" and gok: "grid_ok w 1 [BASE_STATION # ts]"
    and nobase: "BASE_STATION \<notin> set ts"
    and lt: "Suc n = unat w" and n: "0 < n"
    and wrap: "(of_nat (path_cost ts (n - 1)) :: u32) = COST_UNDEF"
  shows "\<exists>m' q'. loop_body m q = Inr (m', q') \<and> q_first q' = int (Suc n) \<and>
           q_last q' = int (Suc (Suc n))"
proof -
  define c where "c = corridor_pos n"
  define new where "new = fresh_in (costs m) (neighbours w 1 c)"
  define q1 where "q1 = q\<lparr>q_first := q_first q + 1\<rparr>"
  from st have size: "q_size q = int (cell_count w 1)"
    and before: "\<forall>i < n. cell_at (costs m) (corridor_pos i) = of_nat (path_cost ts i)"
    by (simp_all add: corridor_state_def)
  from corridor_state_cursors [OF st] have first: "q_first q = int n"
    and last: "q_last q = int (Suc n)"
    by simp_all
  have nw: "n < unat w" using lt by simp
  have nbrs: "neighbours w 1 c = [corridor_pos (n - 1)]"
    unfolding c_def using corridor_neighbours [OF nw] lt n by simp
  have "cell_at (costs m) (corridor_pos (n - 1)) = COST_UNDEF"
    using before wrap n by simp
  then have new: "new = [corridor_pos (n - 1)]"
    by (simp add: new_def nbrs fresh_in_def)
  have "0 < cell_count w 1"
    using nw by (simp add: cell_count_row)
  then have "q_last q1 - q_first q1 < q_size q1"
    using first last size by (simp add: q1_def)
  then obtain q' where q': "enqueue q1 (corridor_pos (n - 1)) = Inr q'"
    "q_first q' = q_first q1" "q_last q' = q_last q1 + 1"
    by (simp add: enqueue_def)
  then have ea: "enqueue_all q1 new = Inr q'"
    by (simp add: new)
  define m' where
    "m' = m\<lparr>costs := grid_upd (mark_all (costs m) new) c (of_nat (path_cost ts n))\<rparr>"
  from corridor_step_general [OF st gok nw nobase c_def new_def q1_def ea m'_def]
  have "loop_body m q = Inr (m', q')"
    by simp
  moreover have "q_first q' = int (Suc n)" "q_last q' = int (Suc (Suc n))"
    using q'(2,3) first last by (simp_all add: q1_def)
  ultimately show ?thesis by blast
qed

lemma cost_below_undef: "x < 4294967295 \<Longrightarrow> (of_nat x :: u32) \<noteq> COST_UNDEF"
proof
  assume x: "x < 4294967295" and eq: "(of_nat x :: u32) = COST_UNDEF"
  have "unat (of_nat x :: u32) = x"
    using x by (intro unat_of_nat_u32 [of x "0xFFFFFFFF"]) simp
  moreover have "unat COST_UNDEF = 4294967295"
    by (simp add: COST_UNDEF_def)
  ultimately show False using x eq by simp
qed

lemma corridor_reach:
  assumes gok: "grid_ok w 1 [BASE_STATION # ts]" and nobase: "BASE_STATION \<notin> set ts"
    and small: "unat w < 2 ^ 31" and k: "0 < k" "Suc k < unat w"
    and below: "path_cost ts (k - 1) < 4294967295"
  shows "\<exists>m q. compute_costs_steps (Suc k) (map_fill 1 w [BASE_STATION # ts]) = Inr (m, q) \<and>
           corridor_state w ts (Suc k) m q"
proof -
  from corridor_initial [OF gok small] obtain q0 where
    steps: "\<And>n. compute_costs_steps n (map_fill 1 w [BASE_STATION # ts]) =
                 loop_iterate n (map_fill 1 w [BASE_STATION # ts]) q0"
    and init: "corridor_state w ts 0 (map_fill 1 w [BASE_STATION # ts]) q0"
    by blast
  have "\<forall>i. Suc i < Suc k \<longrightarrow> (of_nat (path_cost ts i) :: u32) \<noteq> COST_UNDEF"
  proof (intro allI impI)
    fix i assume "Suc i < Suc k"
    then have "i \<le> k - 1" by simp
    then have "path_cost ts i \<le> path_cost ts (k - 1)" by (rule path_cost_mono)
    then have "path_cost ts i < 4294967295" using below by simp
    then show "(of_nat (path_cost ts i) :: u32) \<noteq> COST_UNDEF" by (rule cost_below_undef)
  qed
  from corridor_run [OF gok nobase init k(2) this] show ?thesis
    unfolding steps .
qed

lemma corridor_overrun_run:
  assumes gok: "grid_ok w 1 [BASE_STATION # ts]" and nobase: "BASE_STATION \<notin> set ts"
    and small: "unat w < 2 ^ 31" and k: "0 < k" "Suc (Suc k) = unat w"
    and below: "path_cost ts (k - 1) < 4294967295" and hit: "path_cost ts k = 4294967295"
  shows "\<exists>m q. compute_costs_steps (Suc (Suc k)) (map_fill 1 w [BASE_STATION # ts]) = Inr (m, q) \<and>
           q_first q = int (Suc (Suc k)) \<and> q_last q = int (Suc (Suc (Suc k)))"
proof -
  let ?M = "map_fill 1 w [BASE_STATION # ts]"
  from corridor_initial [OF gok small] obtain q0 where
    steps: "\<And>n. compute_costs_steps n ?M = loop_iterate n ?M q0"
    by blast
  have "Suc k < unat w" using k(2) by simp
  from corridor_reach [OF gok nobase small k(1) this below] obtain m q where
    run: "loop_iterate (Suc k) ?M q0 = Inr (m, q)" and st: "corridor_state w ts (Suc k) m q"
    unfolding steps by blast
  have wrap: "(of_nat (path_cost ts (Suc k - 1)) :: u32) = COST_UNDEF"
    by (simp add: hit COST_UNDEF_def)
  from corridor_overrun [OF st gok nobase k(2) _ wrap] obtain m' q' where
    body: "loop_body m q = Inr (m', q')" and cur: "q_first q' = int (Suc (Suc k))"
    "q_last q' = int (Suc (Suc (Suc k)))"
    by blast
  have "q_first q \<noteq> q_last q"
    using corridor_state_cursors [OF st] by simp
  then have "loop_iterate (Suc (Suc k)) ?M q0 = Inr (m', q')"
    unfolding loop_iterate_Suc_end [of "Suc k"] run using body by simp
  then show ?thesis
    unfolding steps using cur by blast
qed

lemma corridor_reenqueue_run:
  assumes gok: "grid_ok w 1 [BASE_STATION # ts]" and nobase: "BASE_STATION \<notin> set ts"
    and small: "unat w < 2 ^ 31" and k: "0 < k" "Suc (Suc (Suc k)) < unat w"
    and below: "path_cost ts (k - 1) < 4294967295" and hit: "path_cost ts k = 4294967295"
  shows "\<exists>m q. compute_costs_steps (Suc (Suc k)) (map_fill 1 w [BASE_STATION # ts]) = Inr (m, q) \<and>
           q_first q = int (Suc (Suc k)) \<and> q_last q = int (k + 4) \<and> q_size q = int (unat w) \<and>
           q_values q ! k = corridor_pos k \<and> q_values q ! Suc (Suc k) = corridor_pos k"
proof -
  let ?M = "map_fill 1 w [BASE_STATION # ts]"
  let ?E = "map corridor_pos [0..<Suc (Suc k)]"
  from corridor_initial [OF gok small] obtain q0 where
    steps: "\<And>n. compute_costs_steps n ?M = loop_iterate n ?M q0"
    by blast
  have "Suc k < unat w" using k(2) by simp
  from corridor_reach [OF gok nobase small k(1) this below] obtain m q where
    run: "loop_iterate (Suc k) ?M q0 = Inr (m, q)" and st: "corridor_state w ts (Suc k) m q"
    unfolding steps by blast
  have wrap: "(of_nat (path_cost ts (Suc k - 1)) :: u32) = COST_UNDEF"
    by (simp add: hit COST_UNDEF_def)
  from corridor_reenqueue [OF st gok nobase k(2) _ wrap] obtain m' q' where
    body: "loop_body m q = Inr (m', q')" and cur: "q_first q' = int (Suc (Suc k))"
    "q_last q' = int (Suc k + 3)" "q_size q' = int (cell_count w 1)"
    and enq: "enqueued q' = ?E @ [corridor_pos (Suc k - 1), corridor_pos (Suc (Suc k))]"
    by blast
  have "q_first q \<noteq> q_last q"
    using corridor_state_cursors [OF st] by simp
  then have it: "loop_iterate (Suc (Suc k)) ?M q0 = Inr (m', q')"
    unfolding loop_iterate_Suc_end [of "Suc k"] run using body by simp
  have nth: "q_values q' ! i = enqueued q' ! i" if "i < k + 4" for i
    using that cur(2) by (simp add: enqueued_def)
  have "enqueued q' ! k = ?E ! k"
    unfolding enq by (simp add: nth_append del: upt_Suc)
  also have "\<dots> = corridor_pos k"
    by (simp del: upt_Suc)
  finally have a: "q_values q' ! k = corridor_pos k"
    using nth [of k] by simp
  have "enqueued q' ! Suc (Suc k) = corridor_pos k"
    unfolding enq by (simp add: nth_append del: upt_Suc)
  then have b: "q_values q' ! Suc (Suc k) = corridor_pos k"
    using nth [of "Suc (Suc k)"] by simp
  show ?thesis
    unfolding steps using it cur a b by (simp add: cell_count_row del: of_nat_Suc)
qed

lemma path_cost_hit:
  "path_cost (replicate 429496 CREVASSE @ replicate 7293 PLAIN @ ERG # rest) 436790 = 4294967295"
  by (simp add: path_cost_def sum_list_replicate)

lemma path_cost_below:
  "path_cost (replicate 429496 CREVASSE @ replicate 7293 PLAIN @ ERG # rest) 436789 = 4294967293"
  by (simp add: path_cost_def sum_list_replicate)

section \<open>The properties of the specification\<close>

subsection \<open>C1: a grid without base station\<close>

text \<open>C1. The claim: on a grid without base station no propagation takes place and, once
  \<^verbatim>\<open>map_from_file\<close> has returned, every cell still holds 0xFFFFFFFF. On the row of two
  plain cells the scan finds no base station and \<^verbatim>\<open>_compute_costs\<close> returns the map as it
  was, every cost 0xFFFFFFFF; \<^verbatim>\<open>_remove_false_costs\<close> then recomputes both cells, and
  0xFFFFFFFF + 1 wraps to 0: the costs returned are 0 and 1.\<close>

theorem C1_no_origin_costs_rewritten:
  "get_base_station_pos (map_fill 1 2 [[PLAIN, PLAIN]]) =
     Inr \<lparr>pos_x = 0xFFFFFFFF, pos_y = 0xFFFFFFFF\<rparr> \<and>
   compute_costs (map_fill 1 2 [[PLAIN, PLAIN]]) = Some (Inr (map_fill 1 2 [[PLAIN, PLAIN]])) \<and>
   costs (map_fill 1 2 [[PLAIN, PLAIN]]) = [[0xFFFFFFFF, 0xFFFFFFFF]] \<and>
   map_from_file 1 2 [[PLAIN, PLAIN]] =
     Some (Inr \<lparr>width = 2, height = 1, soils = [[PLAIN, PLAIN]], costs = [[0, 1]]\<rparr>)"
  by code_simp

subsection \<open>C2: the cost of a cell none of whose neighbours has a defined cost\<close>

text \<open>C2. The claim: when no neighbour inside the grid has a defined cost, so that
  \<open>cost_min\<close> stays at 0xFFFFFFFF, and the terrain cost \<open>t\<close> of the cell is not zero, the
  cost returned is \<open>undefined + t\<close>, a very large number above every real path cost.
  What the code returns: the sum is taken in \<^verbatim>\<open>unsigned int\<close>, so it wraps around to
  \<open>t - 1\<close>, which is below 10000.\<close>

theorem C2_undefined_plus_terrain_wraps:
  assumes "map_ok m" and "POSITION_IS_VALID p (width m) (height m)"
    and "\<forall>n \<in> set (neighbours (width m) (height m) p). cell_at (costs m) n = COST_UNDEF"
    and "soil_cost (cell_at (soils m) p) \<noteq> 0"
    and "compute_cell_cost m p queue = Inr (v, m', queue')"
  shows "v = COST_UNDEF + soil_cost (cell_at (soils m) p) \<and>
         v = soil_cost (cell_at (soils m) p) - 1 \<and> unat v < 10000"
proof -
  let ?t = "soil_cost (cell_at (soils m) p)"
  have "cost_min_from (costs m) (neighbours (width m) (height m) p) 0xFFFFFFFF = COST_UNDEF"
    using assms(3) cost_min_from_const [of "neighbours (width m) (height m) p" "costs m" COST_UNDEF]
    by (simp add: COST_UNDEF_def)
  then have v: "v = COST_UNDEF + ?t"
    using compute_cell_cost_value [OF assms(1,2,5)] assms(4) by (simp add: cell_value_def)
  have "?t \<in> {1, 2, 4, 10000}"
    using assms(4) by (cases "cell_at (soils m) p") simp_all
  then show ?thesis
    unfolding v COST_UNDEF_def by auto
qed

text \<open>C2 on the 1 by 1 grid of plain: the cell has no neighbour inside the grid and
  gets 0xFFFFFFFF + 1 = 0.\<close>

theorem C2_undefined_plus_terrain_wraps_witness:
  "map_ok (map_fill 1 1 [[PLAIN]]) \<and>
   POSITION_IS_VALID \<lparr>pos_x = 0, pos_y = 0\<rparr> 1 1 \<and>
   neighbours 1 1 \<lparr>pos_x = 0, pos_y = 0\<rparr> = [] \<and>
   compute_cell_cost (map_fill 1 1 [[PLAIN]]) \<lparr>pos_x = 0, pos_y = 0\<rparr> None =
     Inr (0, map_fill 1 1 [[PLAIN]], None) \<and>
   (0 :: u32) = COST_UNDEF + 1"
proof -
  let ?m = "map_fill 1 1 [[PLAIN]]" and ?p = "\<lparr>pos_x = 0, pos_y = 0\<rparr>"
  have h1: "map_ok ?m"
    by (simp add: map_ok_def grid_ok_def map_fill_def)
  have h2: "POSITION_IS_VALID ?p (width ?m) (height ?m)"
    by (simp add: POSITION_IS_VALID_def map_fill_def)
  have n: "neighbours 1 1 ?p = []"
    by (simp add: neighbours_def neighbours_in_def direction_vectors_def neighbour_pos_def
        POSITION_IS_VALID_def)
  have h3: "\<forall>n \<in> set (neighbours (width ?m) (height ?m) ?p). cell_at (costs ?m) n = COST_UNDEF"
    using n by (simp add: map_fill_def)
  have h4: "soil_cost (cell_at (soils ?m) ?p) \<noteq> 0"
    by (simp add: map_fill_def cell_at_def)
  have h5: "compute_cell_cost ?m ?p None = Inr (0, ?m, None)"
    by (simp add: compute_cell_cost_def map_fill_def cell_get_def direction_vectors_def
        visit_neighbour_def neighbour_pos_def POSITION_IS_VALID_def)
  from C2_undefined_plus_terrain_wraps [OF h1 h2 h3 h4 h5]
  have "(0 :: u32) = COST_UNDEF + 1"
    by (simp add: map_fill_def cell_at_def)
  then show ?thesis
    using h1 h2 n h5 by (simp add: map_fill_def)
qed

subsection \<open>C3: each cell is enqueued at most once\<close>

text \<open>C3. The claim: in one run of \<^verbatim>\<open>_compute_costs\<close> every cell is enqueued at most
  once, the pending mark keeping it from being enqueued again. What the code does on a row
  of 436794 cells, the base station, 429496 crevasses, 7293 plain cells, one dune and three
  plain cells: the dune, cell 436790, is enqueued a first time by its
  left neighbour and gets the cost 0xFFFFFFFF; its right neighbour takes that for the mark
  of a cell never reached and enqueues it a second time. After 436792 iterations the queue
  of capacity 436794 has been written 436794 times without wrapping, and its slots 436790
  and 436792 both hold the position of the dune.\<close>

theorem C3_cell_enqueued_twice:
  "case compute_costs_steps 436792
          (map_fill 1 436794
             [BASE_STATION # replicate 429496 CREVASSE @ replicate 7293 PLAIN @ [ERG, PLAIN, PLAIN, PLAIN]]) of
     Inl e \<Rightarrow> False
   | Inr (m, q) \<Rightarrow>
       q_first q = 436792 \<and> q_last q = 436794 \<and> q_size q = 436794 \<and>
       q_values q ! 436790 = \<lparr>pos_x = 436790, pos_y = 0\<rparr> \<and>
       q_values q ! 436792 = \<lparr>pos_x = 436790, pos_y = 0\<rparr>"
proof -
  let ?ts = "replicate 429496 CREVASSE @ replicate 7293 PLAIN @ [ERG, PLAIN, PLAIN, PLAIN]"
  have gok: "grid_ok 436794 1 [BASE_STATION # ?ts]"
    by (simp add: grid_ok_def)
  have nobase: "BASE_STATION \<notin> set ?ts"
    by simp
  have small: "unat (436794 :: u32) < 2 ^ 31"
    by simp
  have k: "0 < (436790 :: nat)" "Suc (Suc (Suc 436790)) < unat (436794 :: u32)"
    by simp_all
  have below: "path_cost ?ts (436790 - 1) < 4294967295"
    using path_cost_below [of "[PLAIN, PLAIN, PLAIN]"] by simp
  have hit: "path_cost ?ts 436790 = 4294967295"
    by (rule path_cost_hit)
  from corridor_reenqueue_run [OF gok nobase small k below hit] show ?thesis
    by (auto simp: corridor_pos_def)
qed

text \<open>C3 holds on the grids of at most 429496 cells, on which no cost can reach the two
  marks (429496 cells of cost 10000 stay below 0xFFFFFFFE). The run starts with the first base
  station alone in the queue. In every state the loop goes through, after any number \<open>n\<close> of
  iterations: the positions enqueued so far, \<open>enqueued q\<close>, are pairwise distinct, so no cell
  has been enqueued twice; the tail cursor has not passed the capacity, which is the number
  of cells, so the ring has not wrapped and \<open>enqueued q\<close> is the whole history; the positions
  enqueued and not yet dequeued are no more than the capacity; and the next iteration
  succeeds and appends to the history only cells that held 0xFFFFFFFF, each marked
  0xFFFFFFFE at once.\<close>

theorem C3_enqueued_at_most_once:
  assumes "grid_ok w h a" and "cell_count w h \<le> 429496"
    and "POSITION_IS_VALID p w h" and "cell_at a p = BASE_STATION"
  shows "\<exists>b q0 m q. get_base_station_pos (map_fill h w a) = Inr b \<and>
           enqueue (initial_queue (map_fill h w a)) b = Inr q0 \<and> enqueued q0 = [b] \<and>
           loop_iterate n (map_fill h w a) q0 = Inr (m, q) \<and>
           distinct (enqueued q) \<and> q_last q \<le> q_size q \<and> q_size q = int (cell_count w h) \<and>
           0 \<le> q_first q \<and> q_first q \<le> q_last q \<and>
           length (pending q) \<le> cell_count w h \<and>
           (q_first q \<noteq> q_last q \<longrightarrow>
              (\<exists>m' q' new. loop_body m q = Inr (m', q') \<and> enqueued q' = enqueued q @ new \<and>
                 (\<forall>c \<in> set new. cell_at (costs m) c = COST_UNDEF \<and>
                                 cell_at (costs m') c = COST_UNDEF - 1)))"
proof -
  let ?m = "map_fill h w a"
  have small: "grid_small 10000 (width ?m) (height ?m)"
    using assms(2) by (simp add: grid_small_cells)
  have "\<forall>r. POSITION_IS_VALID r w h \<longrightarrow> unat (soil_cost (cell_at a r)) \<le> 10000"
    by (simp add: soil_cost_le)
  from run_start [OF assms(1) grid_small_cells [OF assms(2)] assms(3,4) this] obtain b q0 where
    s: "get_base_station_pos ?m = Inr b" "enqueue (initial_queue ?m) b = Inr q0"
    "enqueued q0 = [b]" "bfs_inv 10000 ?m b ?m q0"
    by blast
  from loop_iterate_inv [OF small s(4), of n] obtain m q where
    r: "loop_iterate n ?m q0 = Inr (m, q)" "bfs_inv 10000 ?m b m q"
    by blast
  then have i: "distinct (enqueued q)" "queue_ok q" "q_size q = int (cell_count w h)"
    "\<forall>p \<in> set (enqueued q). POSITION_IS_VALID p w h"
    by (simp_all add: bfs_inv_def)
  have "length (enqueued q) \<le> cell_count w h"
    using i(1,4) by (rule valid_list_length)
  then have len: "length (pending q) \<le> cell_count w h"
    by (simp add: pending_def)
  have step: "\<exists>m' q' new. loop_body m q = Inr (m', q') \<and> enqueued q' = enqueued q @ new \<and>
                 (\<forall>c \<in> set new. cell_at (costs m) c = COST_UNDEF \<and>
                                 cell_at (costs m') c = COST_UNDEF - 1)"
    if "q_first q \<noteq> q_last q"
    using loop_body_inv [OF small r(2) that refl refl] by blast
  show ?thesis
    using s(1,2,3) r(1) i(1,2,3) len step unfolding queue_ok_def by blast
qed

text \<open>C3 on the row base, plain, plain after two iterations.\<close>

theorem C3_enqueued_at_most_once_witness:
  "grid_ok 3 1 [[BASE_STATION, PLAIN, PLAIN]] \<and> cell_count 3 1 \<le> 429496 \<and>
   POSITION_IS_VALID \<lparr>pos_x = 0, pos_y = 0\<rparr> 3 1 \<and>
   cell_at [[BASE_STATION, PLAIN, PLAIN]] \<lparr>pos_x = 0, pos_y = 0\<rparr> = BASE_STATION \<and>
   (\<exists>b q0 m q. get_base_station_pos (map_fill 1 3 [[BASE_STATION, PLAIN, PLAIN]]) = Inr b \<and>
      enqueue (initial_queue (map_fill 1 3 [[BASE_STATION, PLAIN, PLAIN]])) b = Inr q0 \<and>
      loop_iterate 2 (map_fill 1 3 [[BASE_STATION, PLAIN, PLAIN]]) q0 = Inr (m, q) \<and>
      distinct (enqueued q) \<and> q_last q \<le> q_size q)"
proof -
  have h1: "grid_ok 3 1 [[BASE_STATION, PLAIN, PLAIN]]"
    by (simp add: grid_ok_def)
  have h2: "cell_count 3 1 \<le> 429496"
    by (simp add: cell_count_def)
  have h3: "POSITION_IS_VALID \<lparr>pos_x = 0, pos_y = 0\<rparr> 3 1"
    by (simp add: POSITION_IS_VALID_def)
  have h4: "cell_at [[BASE_STATION, PLAIN, PLAIN]] \<lparr>pos_x = 0, pos_y = 0\<rparr> = BASE_STATION"
    by (simp add: cell_at_def)
  from C3_enqueued_at_most_once [OF h1 h2 h3 h4, of 2]
  have "\<exists>b q0 m q. get_base_station_pos (map_fill 1 3 [[BASE_STATION, PLAIN, PLAIN]]) = Inr b \<and>
      enqueue (initial_queue (map_fill 1 3 [[BASE_STATION, PLAIN, PLAIN]])) b = Inr q0 \<and>
      loop_iterate 2 (map_fill 1 3 [[BASE_STATION, PLAIN, PLAIN]]) q0 = Inr (m, q) \<and>
      distinct (enqueued q) \<and> q_last q \<le> q_size q"
    by blast
  then show ?thesis
    using h1 h2 h3 h4 by blast
qed

subsection \<open>C4: the loop ends within width times height dequeues\<close>

text \<open>C4. The claim: on a grid with a base station the loop of \<^verbatim>\<open>_compute_costs\<close> ends
  after at most width times height dequeues. What the code does on a row of 436792 cells,
  the base station, 429496 crevasses, 7293 plain cells, one dune and one plain cell: the
  costs grow along the row and the dune, cell 436790,
  gets 429496 * 10000 + 7293 + 2 = 0xFFFFFFFF, the value that marks a cell nobody has
  reached. The last cell therefore enqueues it again: after 436792 dequeues, as many as
  the grid has cells, \<^verbatim>\<open>queue.first != queue.last\<close> still holds and the loop goes on
  to one more dequeue.\<close>

theorem C4_more_dequeues_than_cells:
  "case compute_costs_steps 436792
          (map_fill 1 436792
             [BASE_STATION # replicate 429496 CREVASSE @ replicate 7293 PLAIN @ [ERG, PLAIN]]) of
     Inl e \<Rightarrow> False
   | Inr (m, q) \<Rightarrow> q_first q = 436792 \<and> q_last q = 436793"
proof -
  let ?ts = "replicate 429496 CREVASSE @ replicate 7293 PLAIN @ [ERG, PLAIN]"
  have gok: "grid_ok 436792 1 [BASE_STATION # ?ts]"
    by (simp add: grid_ok_def)
  have nobase: "BASE_STATION \<notin> set ?ts"
    by simp
  have small: "unat (436792 :: u32) < 2 ^ 31"
    by simp
  have k: "0 < (436790 :: nat)" "Suc (Suc 436790) = unat (436792 :: u32)"
    by simp_all
  have below: "path_cost ?ts (436790 - 1) < 4294967295"
    using path_cost_below [of "[PLAIN]"] by simp
  have hit: "path_cost ?ts 436790 = 4294967295"
    by (rule path_cost_hit)
  from corridor_overrun_run [OF gok nobase small k below hit] show ?thesis
    by auto
qed

text \<open>C4 holds on the grids of at most 429496 cells: when the grid has a base station, the
  \<^verbatim>\<open>while\<close> loop of \<^verbatim>\<open>_compute_costs\<close> has left through its exit test after at most
  width times height iterations, each of which dequeues once (the head cursor, which counts
  the dequeues, is at most the number of cells), and \<^verbatim>\<open>_compute_costs\<close> returns.\<close>

theorem C4_loop_terminates:
  assumes "grid_ok w h a" and "cell_count w h \<le> 429496"
    and "POSITION_IS_VALID p w h" and "cell_at a p = BASE_STATION"
  shows "\<exists>b q0 m' q'. get_base_station_pos (map_fill h w a) = Inr b \<and>
           enqueue (initial_queue (map_fill h w a)) b = Inr q0 \<and>
           loop_iterate (cell_count w h) (map_fill h w a) q0 = Inr (m', q') \<and>
           q_first q' = q_last q' \<and> q_first q0 = 0 \<and> q_first q' \<le> int (cell_count w h) \<and>
           compute_costs (map_fill h w a) = Some (Inr m')"
proof -
  let ?m = "map_fill h w a"
  have small: "grid_small 10000 (width ?m) (height ?m)"
    using assms(2) by (simp add: grid_small_cells)
  have "\<forall>r. POSITION_IS_VALID r w h \<longrightarrow> unat (soil_cost (cell_at a r)) \<le> 10000"
    by (simp add: soil_cost_le)
  from run_start [OF assms(1) grid_small_cells [OF assms(2)] assms(3,4) this] obtain b q0 where
    s: "get_base_station_pos ?m = Inr b" "enqueue (initial_queue ?m) b = Inr q0"
    "q_first q0 = 0" "compute_costs ?m = compute_loop ?m q0" "bfs_inv 10000 ?m b ?m q0"
    by blast
  have "cell_count (width ?m) (height ?m) - nat (q_first q0) \<le> cell_count w h"
    by simp
  from loop_iterate_terminates [OF small s(5) this] obtain m' q' where
    r: "loop_iterate (cell_count w h) ?m q0 = Inr (m', q')" "bfs_inv 10000 ?m b m' q'"
    "q_first q' = q_last q'"
    by blast
  have "q_first q' \<le> int (cell_count w h)"
    using bfs_inv_first_bound [OF r(2)] by simp
  moreover have "compute_costs ?m = Some (Inr m')"
    using loop_iterate_compute_loop [OF r(1,3)] s(4) by simp
  ultimately show ?thesis
    using s(1,2,3) r(1,3) by blast
qed

text \<open>C4 on the row base, plain, plain: three iterations empty the queue.\<close>

theorem C4_loop_terminates_witness:
  "grid_ok 3 1 [[BASE_STATION, PLAIN, PLAIN]] \<and> cell_count 3 1 = 3 \<and>
   POSITION_IS_VALID \<lparr>pos_x = 0, pos_y = 0\<rparr> 3 1 \<and>
   cell_at [[BASE_STATION, PLAIN, PLAIN]] \<lparr>pos_x = 0, pos_y = 0\<rparr> = BASE_STATION \<and>
   (\<exists>b q0 m' q'. get_base_station_pos (map_fill 1 3 [[BASE_STATION, PLAIN, PLAIN]]) = Inr b \<and>
      enqueue (initial_queue (map_fill 1 3 [[BASE_STATION, PLAIN, PLAIN]])) b = Inr q0 \<and>
      loop_iterate 3 (map_fill 1 3 [[BASE_STATION, PLAIN, PLAIN]]) q0 = Inr (m', q') \<and>
      q_first q' = q_last q' \<and>
      compute_costs (map_fill 1 3 [[BASE_STATION, PLAIN, PLAIN]]) = Some (Inr m'))"
proof -
  have h1: "grid_ok 3 1 [[BASE_STATION, PLAIN, PLAIN]]"
    by (simp add: grid_ok_def)
  have c: "cell_count 3 1 = 3"
    by (simp add: cell_count_def)
  then have h2: "cell_count 3 1 \<le> 429496"
    by simp
  have h3: "POSITION_IS_VALID \<lparr>pos_x = 0, pos_y = 0\<rparr> 3 1"
    by (simp add: POSITION_IS_VALID_def)
  have h4: "cell_at [[BASE_STATION, PLAIN, PLAIN]] \<lparr>pos_x = 0, pos_y = 0\<rparr> = BASE_STATION"
    by (simp add: cell_at_def)
  from C4_loop_terminates [OF h1 h2 h3 h4]
  have "\<exists>b q0 m' q'. get_base_station_pos (map_fill 1 3 [[BASE_STATION, PLAIN, PLAIN]]) = Inr b \<and>
      enqueue (initial_queue (map_fill 1 3 [[BASE_STATION, PLAIN, PLAIN]])) b = Inr q0 \<and>
      loop_iterate 3 (map_fill 1 3 [[BASE_STATION, PLAIN, PLAIN]]) q0 = Inr (m', q') \<and>
      q_first q' = q_last q' \<and>
      compute_costs (map_fill 1 3 [[BASE_STATION, PLAIN, PLAIN]]) = Some (Inr m')"
    unfolding c by blast
  then show ?thesis
    using h1 c h3 h4 by blast
qed

subsection \<open>C5: several base stations\<close>

text \<open>C5, as stated: every base station but the first of the scan is inert terrain and no
  further source of cost 0. On the row base, crevasse, base, plain the second base station
  gets cost 0 and the plain cell behind it cost 1, although every path from the first base
  station crosses the crevasse.\<close>

theorem C5_second_origin_counterexample:
  "map_from_file 1 4 [[BASE_STATION, CREVASSE, BASE_STATION, PLAIN]] =
     Some (Inr \<lparr>width = 4, height = 1, soils = [[BASE_STATION, CREVASSE, BASE_STATION, PLAIN]],
                 costs = [[0, 10000, 0, 1]]\<rparr>)"
  by code_simp

text \<open>C5, amended: when the grid has a base station, \<^verbatim>\<open>_compute_costs\<close> starts from the
  first one of the row-major scan (no cell before it in the scan is a base station) and
  enqueues it alone; and the single-cell formula gives every base station cell, the first or
  another, the cost 0 whatever its neighbours hold, so that another base station is a cell of
  cost 0 for the neighbours computed after it.\<close>

theorem C5_first_origin_and_zero_cost:
  assumes "map_ok m"
    and "p \<in> set (row_major (width m) (height m))" and "cell_at (soils m) p = BASE_STATION"
  shows "(\<exists>pre b post. row_major (width m) (height m) = pre @ b # post \<and>
            get_base_station_pos m = Inr b \<and> cell_at (soils m) b = BASE_STATION \<and>
            (\<forall>r \<in> set pre. cell_at (soils m) r \<noteq> BASE_STATION) \<and>
            compute_costs m =
              (case enqueue (initial_queue m) b of
                 Inl e \<Rightarrow> Some (Inl e) | Inr q \<Rightarrow> compute_loop m q)) \<and>
         (\<forall>queue v m' queue'. compute_cell_cost m p queue = Inr (v, m', queue') \<longrightarrow> v = 0)"
proof -
  from get_base_station_pos_cases [OF assms(1)] assms(2,3)
  obtain pre b post where b: "row_major (width m) (height m) = pre @ b # post"
    "get_base_station_pos m = Inr b" "cell_at (soils m) b = BASE_STATION"
    "\<forall>r \<in> set pre. cell_at (soils m) r \<noteq> BASE_STATION"
    by blast
  have "b \<in> set (row_major (width m) (height m))"
    using b(1) by simp
  then have "POSITION_IS_VALID b (width m) (height m)"
    by (simp add: row_major_set)
  then have "pos_x b \<noteq> 0xFFFFFFFF \<and> pos_y b \<noteq> 0xFFFFFFFF"
    by (rule valid_not_sentinel)
  then have "compute_costs m =
      (case enqueue (initial_queue m) b of Inl e \<Rightarrow> Some (Inl e) | Inr q \<Rightarrow> compute_loop m q)"
    by (simp add: compute_costs_def b(2))
  moreover have "v = 0" if "compute_cell_cost m p queue = Inr (v, m', queue')" for queue v m' queue'
    using assms(1) _ assms(3) that by (rule base_station_cost_zero) (use assms(2) in \<open>simp add: row_major_set\<close>)
  ultimately show ?thesis
    using b by blast
qed

text \<open>C5 on the row base, rocky, base: the scan returns the first cell, and the formula
  gives the third cell the cost 0.\<close>

theorem C5_first_origin_and_zero_cost_witness:
  "map_ok (map_fill 1 3 [[BASE_STATION, REG, BASE_STATION]]) \<and>
   row_major 3 1 = [\<lparr>pos_x = 0, pos_y = 0\<rparr>, \<lparr>pos_x = 1, pos_y = 0\<rparr>, \<lparr>pos_x = 2, pos_y = 0\<rparr>] \<and>
   get_base_station_pos (map_fill 1 3 [[BASE_STATION, REG, BASE_STATION]]) =
     Inr \<lparr>pos_x = 0, pos_y = 0\<rparr> \<and>
   (\<exists>m' queue'. compute_cell_cost (map_fill 1 3 [[BASE_STATION, REG, BASE_STATION]])
      \<lparr>pos_x = 2, pos_y = 0\<rparr> None = Inr (0, m', queue'))"
proof -
  let ?m = "map_fill 1 3 [[BASE_STATION, REG, BASE_STATION]]"
  let ?p = "\<lparr>pos_x = 2, pos_y = 0\<rparr>"
  have h1: "map_ok ?m"
    by (simp add: map_ok_def grid_ok_def map_fill_def)
  have r: "row_major 3 1 = [\<lparr>pos_x = 0, pos_y = 0\<rparr>, \<lparr>pos_x = 1, pos_y = 0\<rparr>, \<lparr>pos_x = 2, pos_y = 0\<rparr>]"
    by code_simp
  have h2: "?p \<in> set (row_major (width ?m) (height ?m))"
    using r by (simp add: map_fill_def)
  have h3: "cell_at (soils ?m) ?p = BASE_STATION"
    by (simp add: map_fill_def cell_at_def)
  have g: "get_base_station_pos ?m = Inr \<lparr>pos_x = 0, pos_y = 0\<rparr>"
    by code_simp
  obtain v m' queue' where c: "compute_cell_cost ?m ?p None = Inr (v, m', queue')"
    using compute_cell_cost_None' [of ?m ?p] h1 h2 by (simp add: row_major_set)
  from C5_first_origin_and_zero_cost [OF h1 h2 h3] c have "v = 0"
    by blast
  then show ?thesis
    using h1 r g c by blast
qed

subsection \<open>C6: the repair pass\<close>

text \<open>C6. \<^verbatim>\<open>_remove_false_costs\<close> is one sweep in row-major order, which visits every cell
  of the grid exactly once. At each cell, \<open>mi\<close> being the map as the sweep finds it there, the
  cost is still the one from before the pass; it is replaced by the value of the single-cell
  formula on \<open>mi\<close> exactly when the soil is not a crevasse and the cost exceeds 10000, and is
  left as it was otherwise. The formula is evaluated without a queue: the call returns the
  map unchanged and no queue, so no cell is enqueued or marked.\<close>

theorem C6_repair_pass_frame:
  assumes "map_ok m" and "ps = row_major (width m) (height m)"
  shows "\<exists>m'. remove_false_costs m = Inr m' \<and> same_shape m m' \<and>
      distinct ps \<and> set ps = {p. POSITION_IS_VALID p (width m) (height m)} \<and>
      (\<forall>i < length ps.
         \<exists>mi. sweep m (take i ps) = Inr mi \<and>
              cell_at (costs mi) (ps ! i) = cell_at (costs m) (ps ! i) \<and>
              compute_cell_cost mi (ps ! i) None = Inr (cell_value mi (ps ! i), mi, None) \<and>
              cell_at (costs m') (ps ! i) =
                (if needs_repair mi (ps ! i) then cell_value mi (ps ! i)
                 else cell_at (costs m) (ps ! i)))"
proof -
  have d: "distinct ps" and s: "set ps = {p. POSITION_IS_VALID p (width m) (height m)}"
    unfolding assms(2) by (simp_all add: row_major_distinct row_major_set set_eq_iff)
  from s have v: "\<forall>p \<in> set ps. POSITION_IS_VALID p (width m) (height m)" by simp
  from sweep_effect [OF assms(1) d v] obtain m' where
    m': "sweep m ps = Inr m'" "same_shape m m'"
    and eff: "\<And>i. i < length ps \<Longrightarrow> \<exists>mi. sweep m (take i ps) = Inr mi \<and> map_ok mi \<and>
             same_shape m mi \<and> cell_at (costs mi) (ps ! i) = cell_at (costs m) (ps ! i) \<and>
             cell_at (costs m') (ps ! i) =
               (if needs_repair mi (ps ! i) then cell_value mi (ps ! i)
                else cell_at (costs m) (ps ! i))"
    by blast
  have "\<exists>mi. sweep m (take i ps) = Inr mi \<and>
              cell_at (costs mi) (ps ! i) = cell_at (costs m) (ps ! i) \<and>
              compute_cell_cost mi (ps ! i) None = Inr (cell_value mi (ps ! i), mi, None) \<and>
              cell_at (costs m') (ps ! i) =
                (if needs_repair mi (ps ! i) then cell_value mi (ps ! i)
                 else cell_at (costs m) (ps ! i))" if "i < length ps" for i
  proof -
    from eff [OF that] obtain mi where mi: "sweep m (take i ps) = Inr mi" "map_ok mi"
      "same_shape m mi" "cell_at (costs mi) (ps ! i) = cell_at (costs m) (ps ! i)"
      "cell_at (costs m') (ps ! i) =
               (if needs_repair mi (ps ! i) then cell_value mi (ps ! i)
                else cell_at (costs m) (ps ! i))"
      by blast
    have "POSITION_IS_VALID (ps ! i) (width mi) (height mi)"
      using v that mi(3) by (simp add: same_shape_def)
    from compute_cell_cost_None' [OF mi(2) this] mi show ?thesis
      by (intro exI [of _ mi]) simp
  qed
  then show ?thesis
    using m' d s by (auto simp: remove_false_costs_def assms(2))
qed

text \<open>C6 on a row of two cells: the plain cell with cost 20000 is recomputed from its
  neighbour, the crevasse keeps its cost.\<close>

theorem C6_repair_pass_frame_witness:
  "map_ok \<lparr>width = 2, height = 1, soils = [[PLAIN, CREVASSE]], costs = [[20000, 30000]]\<rparr> \<and>
   remove_false_costs \<lparr>width = 2, height = 1, soils = [[PLAIN, CREVASSE]], costs = [[20000, 30000]]\<rparr>
     = Inr \<lparr>width = 2, height = 1, soils = [[PLAIN, CREVASSE]], costs = [[30001, 30000]]\<rparr> \<and>
   distinct (row_major 2 1)"
proof -
  let ?m = "\<lparr>width = 2, height = 1, soils = [[PLAIN, CREVASSE]], costs = [[20000, 30000]]\<rparr>"
  have h1: "map_ok ?m"
    by (simp add: map_ok_def grid_ok_def)
  have h2: "row_major 2 1 = row_major (width ?m) (height ?m)"
    by simp
  have e: "remove_false_costs ?m =
      Inr \<lparr>width = 2, height = 1, soils = [[PLAIN, CREVASSE]], costs = [[30001, 30000]]\<rparr>"
    by code_simp
  from C6_repair_pass_frame [OF h1 h2] have "distinct (row_major 2 1)"
    by blast
  then show ?thesis
    using h1 e by simp
qed

subsection \<open>C7: costs and Manhattan distance\<close>

text \<open>C7, as stated: on a grid with one base station and no crevasse every cost is the
  Manhattan distance from the base station. A dune next to the base station has cost 2 and
  distance 1.\<close>

theorem C7_manhattan_counterexample:
  "map_from_file 1 2 [[BASE_STATION, ERG]] =
     Some (Inr \<lparr>width = 2, height = 1, soils = [[BASE_STATION, ERG]], costs = [[0, 2]]\<rparr>) \<and>
   manhattan \<lparr>pos_x = 1, pos_y = 0\<rparr> \<lparr>pos_x = 0, pos_y = 0\<rparr> = 1"
  by code_simp

text \<open>C7, amended: on a well-formed grid of fewer than \<open>2 ^ 31\<close> cells with exactly one base station
  in which every other cell is plain, \<^verbatim>\<open>map_from_file\<close> returns, and after both passes the
  cost of every cell is its Manhattan distance from the base station.\<close>

theorem C7_manhattan_on_plain_grids:
  assumes "grid_ok w h a" and "cell_count w h < 2147483648"
    and "POSITION_IS_VALID b w h" and "cell_at a b = BASE_STATION"
    and "\<forall>p. POSITION_IS_VALID p w h \<longrightarrow> p \<noteq> b \<longrightarrow> cell_at a p = PLAIN"
  shows "\<exists>m'. map_from_file h w a = Some (Inr m') \<and>
           (\<forall>p. POSITION_IS_VALID p w h \<longrightarrow> unat (cell_at (costs m') p) = manhattan p b)"
proof -
  let ?m = "map_fill h w a"
  have small: "grid_small 1 (width ?m) (height ?m)"
    using assms(2) by (simp add: grid_small_def)
  have "unat (soil_cost (cell_at a r)) \<le> 1" if "POSITION_IS_VALID r w h" for r
    using assms(4,5) that by (cases "r = b") simp_all
  then have cap: "\<forall>r. POSITION_IS_VALID r w h \<longrightarrow> unat (soil_cost (cell_at a r)) \<le> 1"
    by blast
  have plain: "plain_grid ?m b"
    using assms(5) by (simp add: plain_grid_def)
  from run_start [OF assms(1) small [unfolded map_fill_fields] assms(3,4) cap] obtain b' q0 where
    s: "POSITION_IS_VALID b' w h" "cell_at a b' = BASE_STATION" "enqueued q0 = [b']"
    "q_first q0 = 0" "compute_costs ?m = compute_loop ?m q0" "bfs_inv 1 ?m b' ?m q0"
    by blast
  have "b' = b"
    using assms(5) s(1,2) by auto
  note s = s [unfolded this]
  have lv: "bfs_levels ?m b ?m q0"
    using s(3,4) by (rule bfs_levels_initial)
  have "cell_count (width ?m) (height ?m) - nat (q_first q0) \<le> cell_count w h"
    by simp
  from loop_iterate_terminates [OF small s(6) this] obtain m1 q1 where
    r: "loop_iterate (cell_count w h) ?m q0 = Inr (m1, q1)" "q_first q1 = q_last q1"
    by blast
  from loop_iterate_levels [OF small plain s(6) lv r(1)]
  have "bfs_inv 1 ?m b m1 q1" "bfs_levels ?m b m1 q1"
    by simp_all
  with small have dm: "distance_map ?m b m1"
    using r(2) by (rule bfs_final_distances)
  have cc: "compute_costs ?m = Some (Inr m1)"
    using loop_iterate_compute_loop [OF r] s(5) by simp
  have dims: "width m1 = w" "height m1 = h"
    using dm by (simp_all add: distance_map_def same_shape_def)
  have "\<forall>p \<in> set (row_major w h). POSITION_IS_VALID p (width ?m) (height ?m)"
    by (simp add: row_major_set)
  from sweep_distance [OF plain _ _ dm this] assms(3,4) obtain m' where
    m': "sweep m1 (row_major w h) = Inr m'" "distance_map ?m b m'"
    by auto
  have "map_from_file h w a = Some (Inr m')"
    using cc m'(1) by (simp add: map_from_file_def remove_false_costs_def dims)
  then show ?thesis
    using m'(2) by (auto simp: distance_map_def)
qed

text \<open>C7 on the 3 by 3 grid of plain with the base station in the middle: the costs form the
  diamond 2 1 2, 1 0 1, 2 1 2.\<close>

theorem C7_manhattan_on_plain_grids_witness:
  "grid_ok 3 3 [[PLAIN, PLAIN, PLAIN], [PLAIN, BASE_STATION, PLAIN], [PLAIN, PLAIN, PLAIN]] \<and>
   cell_count 3 3 = 9 \<and>
   POSITION_IS_VALID \<lparr>pos_x = 1, pos_y = 1\<rparr> 3 3 \<and>
   map_from_file 3 3 [[PLAIN, PLAIN, PLAIN], [PLAIN, BASE_STATION, PLAIN], [PLAIN, PLAIN, PLAIN]] =
     Some (Inr \<lparr>width = 3, height = 3,
                 soils = [[PLAIN, PLAIN, PLAIN], [PLAIN, BASE_STATION, PLAIN], [PLAIN, PLAIN, PLAIN]],
                 costs = [[2, 1, 2], [1, 0, 1], [2, 1, 2]]\<rparr>) \<and>
   manhattan \<lparr>pos_x = 2, pos_y = 0\<rparr> \<lparr>pos_x = 1, pos_y = 1\<rparr> = 2"
proof -
  let ?a = "[[PLAIN, PLAIN, PLAIN], [PLAIN, BASE_STATION, PLAIN], [PLAIN, PLAIN, PLAIN]]"
  let ?b = "\<lparr>pos_x = 1, pos_y = 1\<rparr>"
  let ?r = "\<lparr>width = 3, height = 3, soils = ?a, costs = [[2, 1, 2], [1, 0, 1], [2, 1, 2]]\<rparr>"
  have h1: "grid_ok 3 3 ?a"
    by (simp add: grid_ok_def)
  have c: "cell_count 3 3 = 9"
    by (simp add: cell_count_def)
  then have h2: "cell_count 3 3 < 2147483648"
    by simp
  have h3: "POSITION_IS_VALID ?b 3 3"
    by (simp add: POSITION_IS_VALID_def)
  have h4: "cell_at ?a ?b = BASE_STATION"
    by (simp add: cell_at_def)
  have rm: "row_major 3 3 =
      [\<lparr>pos_x = 0, pos_y = 0\<rparr>, \<lparr>pos_x = 1, pos_y = 0\<rparr>, \<lparr>pos_x = 2, pos_y = 0\<rparr>,
       \<lparr>pos_x = 0, pos_y = 1\<rparr>, \<lparr>pos_x = 1, pos_y = 1\<rparr>, \<lparr>pos_x = 2, pos_y = 1\<rparr>,
       \<lparr>pos_x = 0, pos_y = 2\<rparr>, \<lparr>pos_x = 1, pos_y = 2\<rparr>, \<lparr>pos_x = 2, pos_y = 2\<rparr>]"
    by code_simp
  have "\<forall>p \<in> set (row_major 3 3). p \<noteq> ?b \<longrightarrow> cell_at ?a p = PLAIN"
    unfolding rm by (simp add: cell_at_def)
  then have h5: "\<forall>p. POSITION_IS_VALID p 3 3 \<longrightarrow> p \<noteq> ?b \<longrightarrow> cell_at ?a p = PLAIN"
    by (simp add: row_major_set)
  have e: "map_from_file 3 3 ?a = Some (Inr ?r)"
    by code_simp
  have v: "POSITION_IS_VALID \<lparr>pos_x = 2, pos_y = 0\<rparr> 3 3"
    by (simp add: POSITION_IS_VALID_def)
  from C7_manhattan_on_plain_grids [OF h1 h2 h3 h4 h5] e v
  have "unat (cell_at (costs ?r) \<lparr>pos_x = 2, pos_y = 0\<rparr>) = manhattan \<lparr>pos_x = 2, pos_y = 0\<rparr> ?b"
    by auto
  then have "manhattan \<lparr>pos_x = 2, pos_y = 0\<rparr> ?b = 2"
    by (simp add: cell_at_def)
  then show ?thesis
    using h1 c h3 e by simp
qed

subsection \<open>C8: the cost of the base station\<close>

text \<open>C8. When the grid has a base station, the scan finds the first one, and whenever
  \<^verbatim>\<open>_compute_costs\<close> and \<^verbatim>\<open>_remove_false_costs\<close> have both completed the cost of that cell
  is 0. On a grid of at most 429496 cells they do complete.\<close>

theorem C8_origin_cost_zero:
  assumes "grid_ok w h a" and "POSITION_IS_VALID p w h" and "cell_at a p = BASE_STATION"
  shows "\<exists>b. get_base_station_pos (map_fill h w a) = Inr b \<and> POSITION_IS_VALID b w h \<and>
           cell_at a b = BASE_STATION \<and>
           (\<forall>m'. map_from_file h w a = Some (Inr m') \<longrightarrow> cell_at (costs m') b = 0) \<and>
           (cell_count w h \<le> 429496 \<longrightarrow> (\<exists>m'. map_from_file h w a = Some (Inr m')))"
proof -
  let ?m = "map_fill h w a"
  have ok: "map_ok ?m"
    using map_fill_ok [OF assms(1)] by simp
  from origin_found [of ?m p] ok assms(2,3) obtain b where
    b: "get_base_station_pos ?m = Inr b" "POSITION_IS_VALID b w h" "cell_at a b = BASE_STATION"
    "compute_costs ?m =
       (case enqueue (initial_queue ?m) b of Inl e \<Rightarrow> Some (Inl e) | Inr q \<Rightarrow> compute_loop ?m q)"
    by auto
  have after_loop: "\<exists>m'. remove_false_costs m1 = Inr m' \<and> cell_at (costs m') b = 0"
    if "compute_costs ?m = Some (Inr m1)" for m1
  proof -
    from that b(4) obtain q0 where q0: "enqueue (initial_queue ?m) b = Inr q0"
      "compute_loop ?m q0 = Some (Inr m1)"
      by (auto split: sum.splits)
    from compute_loop_iterate [OF q0(2)] obtain n q' where
      it: "loop_iterate n ?m q0 = Inr (m1, q')" "q_first q' = q_last q'"
      by blast
    have "origin_inv ?m b ?m q0"
      using ok b(2,3) initial_queue_head [OF q0(1)] by (simp add: origin_inv_def same_shape_refl)
    from loop_iterate_origin [OF this it] have m1: "map_ok m1" "same_shape ?m m1"
      "cell_at (costs m1) b = 0"
      by simp_all
    have "POSITION_IS_VALID b (width m1) (height m1)"
      using b(2) m1(2) by (simp add: same_shape_def)
    from remove_false_costs_keeps [OF m1(1) this] m1(3) show ?thesis
      by auto
  qed
  have partial: "cell_at (costs m') b = 0" if "map_from_file h w a = Some (Inr m')" for m'
  proof -
    from that obtain m1 where "compute_costs ?m = Some (Inr m1)" "remove_false_costs m1 = Inr m'"
      by (auto simp: map_from_file_def split: option.splits sum.splits)
    then show ?thesis
      using after_loop by fastforce
  qed
  have total: "\<exists>m'. map_from_file h w a = Some (Inr m')" if small: "cell_count w h \<le> 429496"
  proof -
    have gs: "grid_small 10000 (width ?m) (height ?m)"
      using small by (simp add: grid_small_cells)
    have "\<forall>r. POSITION_IS_VALID r w h \<longrightarrow> unat (soil_cost (cell_at a r)) \<le> 10000"
      by (simp add: soil_cost_le)
    from run_start [OF assms(1) grid_small_cells [OF small] assms(2,3) this] obtain b' q0 where
      s: "q_first q0 = 0" "compute_costs ?m = compute_loop ?m q0" "bfs_inv 10000 ?m b' ?m q0"
      by blast
    have "cell_count (width ?m) (height ?m) - nat (q_first q0) \<le> cell_count w h"
      by simp
    from loop_iterate_terminates [OF gs s(3) this] obtain m1 q' where
      r: "loop_iterate (cell_count w h) ?m q0 = Inr (m1, q')" "q_first q' = q_last q'"
      by blast
    have "compute_costs ?m = Some (Inr m1)"
      using loop_iterate_compute_loop [OF r] s(2) by simp
    moreover from this obtain m' where "remove_false_costs m1 = Inr m'"
      using after_loop by blast
    ultimately show ?thesis
      by (simp add: map_from_file_def)
  qed
  show ?thesis
    using b(1,2,3) partial total by blast
qed

text \<open>C8 on the grid with the rows rocky, base and plain, base: the first base station of
  the scan is the cell (1, 0), and its cost is 0 in the map returned.\<close>

theorem C8_origin_cost_zero_witness:
  "grid_ok 2 2 [[REG, BASE_STATION], [PLAIN, BASE_STATION]] \<and>
   POSITION_IS_VALID \<lparr>pos_x = 1, pos_y = 1\<rparr> 2 2 \<and>
   cell_at [[REG, BASE_STATION], [PLAIN, BASE_STATION]] \<lparr>pos_x = 1, pos_y = 1\<rparr> = BASE_STATION \<and>
   get_base_station_pos (map_fill 2 2 [[REG, BASE_STATION], [PLAIN, BASE_STATION]]) =
     Inr \<lparr>pos_x = 1, pos_y = 0\<rparr> \<and>
   map_from_file 2 2 [[REG, BASE_STATION], [PLAIN, BASE_STATION]] =
     Some (Inr \<lparr>width = 2, height = 2, soils = [[REG, BASE_STATION], [PLAIN, BASE_STATION]],
                 costs = [[4, 0], [1, 0]]\<rparr>) \<and>
   cell_at [[4, 0], [1, 0 :: u32]] \<lparr>pos_x = 1, pos_y = 0\<rparr> = 0"
proof -
  let ?a = "[[REG, BASE_STATION], [PLAIN, BASE_STATION]]"
  let ?r = "\<lparr>width = 2, height = 2, soils = ?a, costs = [[4, 0], [1, 0]]\<rparr>"
  have h1: "grid_ok 2 2 ?a"
    by (simp add: grid_ok_def)
  have h2: "POSITION_IS_VALID \<lparr>pos_x = 1, pos_y = 1\<rparr> 2 2"
    by (simp add: POSITION_IS_VALID_def)
  have h3: "cell_at ?a \<lparr>pos_x = 1, pos_y = 1\<rparr> = BASE_STATION"
    by (simp add: cell_at_def)
  have g: "get_base_station_pos (map_fill 2 2 ?a) = Inr \<lparr>pos_x = 1, pos_y = 0\<rparr>"
    by code_simp
  have e: "map_from_file 2 2 ?a = Some (Inr ?r)"
    by code_simp
  from C8_origin_cost_zero [OF h1 h2 h3] g e
  have "cell_at (costs ?r) \<lparr>pos_x = 1, pos_y = 0\<rparr> = 0"
    by auto
  then show ?thesis
    using h1 h2 h3 g e by simp
qed

subsection \<open>C9: no access outside the grid\<close>

text \<open>C9. For a position inside the grid, \<^verbatim>\<open>_compute_cell_cost\<close> never reads or writes a
  cell outside the grid: the model, which reports every access outside the arrays, never
  reports one, and the cost array keeps its dimensions. A coordinate 0xFFFFFFFF, which is what
  a step off row 0 or column 0 wraps to, is never valid; and every neighbour that passes
  \<^verbatim>\<open>POSITION_IS_VALID\<close> is the cell one step away, its coordinates being those of the
  position plus the direction vector without any wrap-around.\<close>

theorem C9_no_access_outside_grid:
  assumes "map_ok m" and "POSITION_IS_VALID p (width m) (height m)"
  shows "compute_cell_cost m p queue \<noteq> Inl OutOfBounds \<and>
         (\<forall>v m' queue'. compute_cell_cost m p queue = Inr (v, m', queue') \<longrightarrow> map_ok m') \<and>
         \<not> POSITION_IS_VALID \<lparr>pos_x = 0xFFFFFFFF, pos_y = b\<rparr> (width m) (height m) \<and>
         \<not> POSITION_IS_VALID \<lparr>pos_x = a, pos_y = 0xFFFFFFFF\<rparr> (width m) (height m) \<and>
         (\<forall>d \<in> set direction_vectors.
            POSITION_IS_VALID (neighbour_pos p d) (width m) (height m) \<longrightarrow>
              int (unat (pos_x (neighbour_pos p d))) = int (unat (pos_x p)) + fst d \<and>
              int (unat (pos_y (neighbour_pos p d))) = int (unat (pos_y p)) + snd d)"
proof -
  have 1: "compute_cell_cost m p queue \<noteq> Inl OutOfBounds"
  proof (cases queue)
    case None
    then show ?thesis using compute_cell_cost_None' [OF assms] by simp
  next
    case (Some q)
    show ?thesis
      unfolding Some compute_cell_cost_Some [OF assms]
      by (auto split: sum.splits dest: enqueue_all_error)
  qed
  have 2: "map_ok m'" if "compute_cell_cost m p queue = Inr (v, m', queue')" for v m' queue'
  proof (cases queue)
    case None
    then show ?thesis using that assms(1) compute_cell_cost_None' [OF assms] by simp
  next
    case (Some q)
    then show ?thesis
      using that assms(1) compute_cell_cost_Some [OF assms, of q]
      by (auto simp: map_ok_def grid_ok_mark_all split: sum.splits)
  qed
  have 3: "\<not> POSITION_IS_VALID \<lparr>pos_x = 0xFFFFFFFF, pos_y = b\<rparr> (width m) (height m)"
    using undef_not_less [of "width m"] by (simp add: POSITION_IS_VALID_def COST_UNDEF_def)
  have 4: "\<not> POSITION_IS_VALID \<lparr>pos_x = a, pos_y = 0xFFFFFFFF\<rparr> (width m) (height m)"
    using undef_not_less [of "height m"] by (simp add: POSITION_IS_VALID_def COST_UNDEF_def)
  show ?thesis
    using 1 2 3 4 neighbour_adjacent [OF assms(2)] by blast
qed

text \<open>C9 on a 2 by 2 grid, at the corner (0, 0), two of whose neighbours wrap to 0xFFFFFFFF.\<close>

theorem C9_no_access_outside_grid_witness:
  "map_ok (map_fill 2 2 [[BASE_STATION, PLAIN], [PLAIN, PLAIN]]) \<and>
   POSITION_IS_VALID \<lparr>pos_x = 0, pos_y = 0\<rparr> 2 2 \<and>
   compute_cell_cost (map_fill 2 2 [[BASE_STATION, PLAIN], [PLAIN, PLAIN]])
     \<lparr>pos_x = 0, pos_y = 0\<rparr> None \<noteq> Inl OutOfBounds \<and>
   \<not> POSITION_IS_VALID \<lparr>pos_x = 0xFFFFFFFF, pos_y = 0\<rparr> 2 2"
proof -
  let ?m = "map_fill 2 2 [[BASE_STATION, PLAIN], [PLAIN, PLAIN]]"
  let ?p = "\<lparr>pos_x = 0, pos_y = 0\<rparr>"
  have h1: "map_ok ?m"
    by (simp add: map_ok_def grid_ok_def map_fill_def)
  have h2: "POSITION_IS_VALID ?p (width ?m) (height ?m)"
    by (simp add: POSITION_IS_VALID_def map_fill_def)
  from C9_no_access_outside_grid [OF h1 h2, of None 0 0]
  have "compute_cell_cost ?m ?p None \<noteq> Inl OutOfBounds \<and>
        \<not> POSITION_IS_VALID \<lparr>pos_x = 0xFFFFFFFF, pos_y = 0\<rparr> (width ?m) (height ?m)"
    by blast
  then show ?thesis
    using h1 h2 by (simp add: map_fill_def)
qed

subsection \<open>C10: neighbours that hold the pending mark\<close>

text \<open>C10, as stated: for a cell of terrain cost \<open>t \<noteq> 0\<close> each of whose neighbours inside
  the grid holds the pending mark 0xFFFFFFFE, the cost returned is \<open>0xFFFFFFFE + t\<close> modulo
  \<open>2 ^ 32\<close>. A cell with no neighbour inside the grid satisfies the condition, and there
  the minimum stays at 0xFFFFFFFF: the only cell of a 1 by 1 grid of plain gets the cost 0,
  not 0xFFFFFFFF.\<close>

theorem C10_pending_neighbours_counterexample:
  "neighbours 1 1 \<lparr>pos_x = 0, pos_y = 0\<rparr> = [] \<and>
   compute_cell_cost (map_fill 1 1 [[PLAIN]]) \<lparr>pos_x = 0, pos_y = 0\<rparr> None =
     Inr (0, map_fill 1 1 [[PLAIN]], None) \<and>
   (0 :: u32) \<noteq> 0xFFFFFFFE + soil_cost PLAIN"
  by (simp add: neighbours_def neighbours_in_def compute_cell_cost_def map_fill_def cell_get_def
      direction_vectors_def visit_neighbour_def neighbour_pos_def POSITION_IS_VALID_def)

text \<open>C10, amended: for a cell of terrain cost \<open>t \<noteq> 0\<close> that has at least one neighbour
  inside the grid, and each of whose neighbours inside the grid holds the pending mark
  0xFFFFFFFE, the pending mark is taken as the minimum like a known cost and the cost
  returned is \<open>0xFFFFFFFE + t\<close> modulo \<open>2 ^ 32\<close>: \<^verbatim>\<open>COST_UNDEF\<close> when \<open>t = 1\<close>, and the small
  value \<open>t - 2\<close> when \<open>t \<ge> 2\<close>.\<close>

theorem C10_pending_neighbours:
  assumes "map_ok m" and "POSITION_IS_VALID p (width m) (height m)"
    and "neighbours (width m) (height m) p \<noteq> []"
    and "\<forall>n \<in> set (neighbours (width m) (height m) p). cell_at (costs m) n = COST_UNDEF - 1"
    and "soil_cost (cell_at (soils m) p) \<noteq> 0"
    and "compute_cell_cost m p queue = Inr (v, m', queue')"
  shows "v = 0xFFFFFFFE + soil_cost (cell_at (soils m) p) \<and>
         (soil_cost (cell_at (soils m) p) = 1 \<longrightarrow> v = COST_UNDEF) \<and>
         (2 \<le> soil_cost (cell_at (soils m) p) \<longrightarrow>
            v = soil_cost (cell_at (soils m) p) - 2 \<and>
            unat v = unat (soil_cost (cell_at (soils m) p)) - 2)"
proof -
  let ?t = "soil_cost (cell_at (soils m) p)"
  have "cost_min_from (costs m) (neighbours (width m) (height m) p) 0xFFFFFFFF = 0xFFFFFFFE"
    using assms(3,4)
      cost_min_from_const [of "neighbours (width m) (height m) p" "costs m" "COST_UNDEF - 1"]
    by (simp add: COST_UNDEF_def)
  then have v: "v = 0xFFFFFFFE + ?t"
    using compute_cell_cost_value [OF assms(1,2,6)] assms(5) by (simp add: cell_value_def)
  have "?t \<in> {1, 2, 4, 10000}"
    using assms(5) by (cases "cell_at (soils m) p") simp_all
  then show ?thesis
    unfolding v COST_UNDEF_def by (auto simp: word_le_nat_alt)
qed

text \<open>C10 on the row plain, dune with both costs at the pending mark: the dune gets
  0xFFFFFFFE + 2 = 0.\<close>

theorem C10_pending_neighbours_witness:
  "map_ok \<lparr>width = 2, height = 1, soils = [[PLAIN, ERG]], costs = [[0xFFFFFFFE, 0xFFFFFFFE]]\<rparr> \<and>
   POSITION_IS_VALID \<lparr>pos_x = 1, pos_y = 0\<rparr> 2 1 \<and>
   neighbours 2 1 \<lparr>pos_x = 1, pos_y = 0\<rparr> = [\<lparr>pos_x = 0, pos_y = 0\<rparr>] \<and>
   compute_cell_cost
     \<lparr>width = 2, height = 1, soils = [[PLAIN, ERG]], costs = [[0xFFFFFFFE, 0xFFFFFFFE]]\<rparr>
     \<lparr>pos_x = 1, pos_y = 0\<rparr> None =
     Inr (0, \<lparr>width = 2, height = 1, soils = [[PLAIN, ERG]], costs = [[0xFFFFFFFE, 0xFFFFFFFE]]\<rparr>,
          None) \<and>
   (0 :: u32) = 0xFFFFFFFE + 2"
proof -
  let ?m = "\<lparr>width = 2, height = 1, soils = [[PLAIN, ERG]], costs = [[0xFFFFFFFE, 0xFFFFFFFE]]\<rparr>"
  let ?p = "\<lparr>pos_x = 1, pos_y = 0\<rparr>"
  have h1: "map_ok ?m"
    by (simp add: map_ok_def grid_ok_def)
  have h2: "POSITION_IS_VALID ?p (width ?m) (height ?m)"
    by (simp add: POSITION_IS_VALID_def)
  have n: "neighbours 2 1 ?p = [\<lparr>pos_x = 0, pos_y = 0\<rparr>]"
    by (simp add: neighbours_def neighbours_in_def direction_vectors_def neighbour_pos_def
        POSITION_IS_VALID_def)
  have h3: "neighbours (width ?m) (height ?m) ?p \<noteq> []"
    using n by simp
  have h4: "\<forall>n \<in> set (neighbours (width ?m) (height ?m) ?p). cell_at (costs ?m) n = COST_UNDEF - 1"
    using n by (simp add: cell_at_def COST_UNDEF_def)
  have h5: "soil_cost (cell_at (soils ?m) ?p) \<noteq> 0"
    by (simp add: cell_at_def)
  have h6: "compute_cell_cost ?m ?p None = Inr (0, ?m, None)"
    by (simp add: compute_cell_cost_def cell_get_def direction_vectors_def
        visit_neighbour_def neighbour_pos_def POSITION_IS_VALID_def)
  from C10_pending_neighbours [OF h1 h2 h3 h4 h5 h6]
  have "(0 :: u32) = 0xFFFFFFFE + 2"
    by (simp add: cell_at_def)
  then show ?thesis
    using h1 h2 n h6 by simp
qed

end
